theory Spec2Isabelle
  imports Main "HOL-Library.Word"
begin

section \<open>The atomic cell of samples/atomic\_data.h\<close>

text \<open>
  \<^verbatim>\<open>atomic_data<T0, N0>\<close> keeps, per data type, one static ring \<^verbatim>\<open>queue\<close> of
  \<^verbatim>\<open>array_size = 2 * N0\<close> slot pointers with the two indices \<^verbatim>\<open>left\<close> and
  \<^verbatim>\<open>right\<close> and the usage counter \<^verbatim>\<open>counter_usage\<close>; every instance adds its own
  pointer \<^verbatim>\<open>data\<close> to the current value. The model is a record of exactly this:
  \<^verbatim>\<open>unsigned\<close> is a 32-bit word, a \<^verbatim>\<open>T0*\<close> is an address into \<open>heap\<close>, and the
  instances are numbered, \<open>cells s ! c\<close> being the member \<^verbatim>\<open>data\<close> of instance \<open>c\<close>.
  \<open>brk\<close> is the next address \<^verbatim>\<open>operator new\<close> hands out.

  \<^verbatim>\<open>compare_exchange_weak\<close> may fail although the expected value is there (spuriously, or
  because another thread won). The model reads the permission for each such call from
  \<open>cas_script\<close>: \<open>False\<close> makes the next \<^verbatim>\<open>compare_exchange_weak\<close> fail, an exhausted
  script lets it behave like a strong compare-and-swap.
\<close>

type_synonym uint = "32 word"
type_synonym addr = nat
type_synonym cell = nat

record 'a state =
  queue_size :: uint
  queue :: "uint \<Rightarrow> addr"
  left :: uint
  right :: uint
  counters :: "uint \<Rightarrow> uint"
  cells :: "addr list"
  heap :: "addr \<Rightarrow> 'a"
  brk :: addr
  cas_script :: "bool list"

text \<open>What a functor does: it returns a value or throws.\<close>

datatype 'r result = Returns 'r | Throws

definition array_size :: "'a state \<Rightarrow> uint" where
  "array_size s = 2 * queue_size s"

text \<open>\<^verbatim>\<open>counter_t::counter_index\<close>: a \<^verbatim>\<open>bool\<close> converted to \<^verbatim>\<open>uint\<close>.\<close>

definition counter_index :: "'a state \<Rightarrow> uint \<Rightarrow> uint" where
  "counter_index s queue_right =
     (if queue_right mod array_size s < queue_size s then 1 else 0)"

definition inc :: "uint \<Rightarrow> 'a state \<Rightarrow> 'a state" where
  "inc queue_right s =
     s\<lparr>counters := (counters s)(counter_index s queue_right :=
          counters s (counter_index s queue_right) + 1)\<rparr>"

definition dec :: "uint \<Rightarrow> 'a state \<Rightarrow> 'a state" where
  "dec queue_right s =
     s\<lparr>counters := (counters s)(counter_index s queue_right :=
          counters s (counter_index s queue_right) - 1)\<rparr>"

definition is_used :: "'a state \<Rightarrow> uint \<Rightarrow> bool" where
  "is_used s queue_right = (counters s (1 - counter_index s queue_right) > 0)"

text \<open>\<^verbatim>\<open>check_barrier\<close>; \<^verbatim>\<open>yield\<close> changes nothing the model holds.\<close>

definition check_barrier :: "'a state \<Rightarrow> uint \<Rightarrow> uint \<Rightarrow> bool" where
  "check_barrier s queue_left queue_right =
     (let is_barrier = (queue_left mod queue_size s = 0) in
      if is_barrier then
        (if queue_right - queue_left < queue_size s then False
         else if is_used s queue_right then False
         else True)
      else True)"

text \<open>The next entry of the script decides whether a weak compare-and-swap may succeed.\<close>

definition cas_permitted :: "'a state \<Rightarrow> bool \<times> 'a state" where
  "cas_permitted s =
     (case cas_script s of
        [] \<Rightarrow> (True, s)
      | b # bs \<Rightarrow> (b, s\<lparr>cas_script := bs\<rparr>))"

text \<open>\<^verbatim>\<open>left.compare_exchange_weak( expected, desired )\<close>.\<close>

definition left_compare_exchange_weak :: "uint \<Rightarrow> uint \<Rightarrow> 'a state \<Rightarrow> bool \<times> 'a state" where
  "left_compare_exchange_weak expected desired s =
     (let (ok, s1) = cas_permitted s in
      if ok \<and> left s1 = expected then (True, s1\<lparr>left := desired\<rparr>) else (False, s1))"

text \<open>\<^verbatim>\<open>data.compare_exchange_weak( expected, desired )\<close> of instance \<open>c\<close>.\<close>

definition data_compare_exchange_weak ::
  "cell \<Rightarrow> addr \<Rightarrow> addr \<Rightarrow> 'a state \<Rightarrow> bool \<times> 'a state" where
  "data_compare_exchange_weak c expected desired s =
     (let (ok, s1) = cas_permitted s in
      if ok \<and> cells s1 ! c = expected then (True, s1\<lparr>cells := (cells s1)[c := desired]\<rparr>)
      else (False, s1))"

text \<open>
  \<^verbatim>\<open>counter_guard\<close>: the constructor loads \<^verbatim>\<open>right\<close>, keeps it and increments the counter
  it selects; the destructor decrements the counter the kept value selects.
\<close>

definition counter_guard :: "'a state \<Rightarrow> uint \<times> 'a state" where
  "counter_guard s = (let queue_right = right s in (queue_right, inc queue_right s))"

definition counter_guard_exit :: "uint \<Rightarrow> 'a state \<Rightarrow> 'a state" where
  "counter_guard_exit queue_right s = dec queue_right s"

text \<open>
  \<^verbatim>\<open>~deallocate_guard\<close>: the body stores the kept pointer at \<^verbatim>\<open>right.add( 1 ) % array_size\<close>,
  then the member \<^verbatim>\<open>counter\<close> is destroyed.
\<close>

definition deallocate_guard_exit :: "addr \<Rightarrow> uint \<Rightarrow> 'a state \<Rightarrow> 'a state" where
  "deallocate_guard_exit p queue_right s =
     counter_guard_exit queue_right
       (s\<lparr>queue := (queue s)(right s mod array_size s := p), right := right s + 1\<rparr>)"

text \<open>
  \<^verbatim>\<open>read\<close>: the functor runs on the current pointer between the constructor and the
  destructor of a \<^verbatim>\<open>counter_guard\<close>, also when it throws.
\<close>

definition read ::
  "(addr \<Rightarrow> 'a state \<Rightarrow> 'r result \<times> 'a state) \<Rightarrow> cell \<Rightarrow> 'a state \<Rightarrow> 'r result \<times> 'a state" where
  "read fn c s =
     (let (ticket, s1) = counter_guard s;
          (r, s2) = fn (cells s1 ! c) s1
      in (r, counter_guard_exit ticket s2))"

text \<open>
  \<^verbatim>\<open>update_weak\<close>, statement by statement. It is a template over the functor type: the
  functor gets the pointer to the copy, and it may change the variables it captured by
  reference (their values are \<open>x\<close>, of any type) and the whole state, since it may itself
  call \<^verbatim>\<open>update_weak\<close> (the list does). A functor that captures nothing has \<open>x = ()\<close>.
\<close>

definition update_weak ::
  "(addr \<Rightarrow> 'x \<Rightarrow> 'a state \<Rightarrow> bool result \<times> 'x \<times> 'a state) \<Rightarrow> cell \<Rightarrow> 'x \<Rightarrow> 'a state
     \<Rightarrow> bool result \<times> 'x \<times> 'a state" where
  "update_weak fn c x s =
     (let queue_left = left s; queue_right = right s in
      if queue_left = queue_right then (Returns False, x, s)
      else if \<not> check_barrier s queue_left queue_right then (Returns False, x, s)
      else
        (case left_compare_exchange_weak queue_left (queue_left + 1) s of
           (False, s1) \<Rightarrow> (Returns False, x, s1)
         | (True, s1) \<Rightarrow>
            (let data_new = queue s1 (queue_left mod array_size s1);
                 data_old = cells s1 ! c;
                 (ticket, s2) = counter_guard s1;
                 s3 = s2\<lparr>heap := (heap s2)(data_new := heap s2 data_old)\<rparr>
             in case fn data_new x s3 of
                  (Throws, x4, s4) \<Rightarrow> (Throws, x4, deallocate_guard_exit data_new ticket s4)
                | (Returns False, x4, s4) \<Rightarrow>
                    (Returns False, x4, deallocate_guard_exit data_new ticket s4)
                | (Returns True, x4, s4) \<Rightarrow>
                    (case data_compare_exchange_weak c data_old data_new s4 of
                       (False, s5) \<Rightarrow>
                         (Returns False, x4, deallocate_guard_exit data_new ticket s5)
                     | (True, s5) \<Rightarrow>
                         (Returns True, x4, deallocate_guard_exit data_old ticket s5)))))"

text \<open>
  \<^verbatim>\<open>update\<close>: \<^verbatim>\<open>while( ! update_weak( fn ) );\<close>. The loop need not end, so the result is
  an option and \<open>None\<close> stands for a call that never returns.
\<close>

partial_function (option) update ::
  "(addr \<Rightarrow> 'x \<Rightarrow> 'a state \<Rightarrow> bool result \<times> 'x \<times> 'a state) \<Rightarrow> cell \<Rightarrow> 'x \<Rightarrow> 'a state
     \<Rightarrow> (unit result \<times> 'x \<times> 'a state) option" where
  "update fn c x s =
     (case update_weak fn c x s of
        (Returns ok, x1, s1) \<Rightarrow> if ok then Some (Returns (), x1, s1) else update fn c x1 s1
      | (Throws, x1, s1) \<Rightarrow> Some (Throws, x1, s1))"

text \<open>
  A functor that captures nothing and only works on the object it is given: \<open>f\<close> maps the
  object's value to what the functor returns and the value it leaves in the object.
\<close>

definition on_object ::
  "('a \<Rightarrow> 'r result \<times> 'a) \<Rightarrow> addr \<Rightarrow> 'x \<Rightarrow> 'a state \<Rightarrow> 'r result \<times> 'x \<times> 'a state" where
  "on_object f p x s = (let (r, v) = f (heap s p) in (r, x, s\<lparr>heap := (heap s)(p := v)\<rparr>))"

text \<open>A functor for \<^verbatim>\<open>read\<close> that returns a function of the object and changes nothing.\<close>

definition observe :: "('a \<Rightarrow> 'r) \<Rightarrow> addr \<Rightarrow> 'a state \<Rightarrow> 'r result \<times> 'a state" where
  "observe g p s = (Returns (g (heap s p)), s)"

text \<open>
  \<^verbatim>\<open>init_static\<close>, the constructor that runs at program load: the static indices start at
  zero, the loop fills the first \<^verbatim>\<open>queue_size\<close> entries with new objects and \<^verbatim>\<open>right\<close>
  becomes \<^verbatim>\<open>queue_size\<close>. Address \<open>0\<close> is the null pointer; \<open>dflt\<close> is the value of a
  default-constructed \<^verbatim>\<open>T0\<close>.
\<close>

definition static_zero :: "uint \<Rightarrow> 'a \<Rightarrow> 'a state" where
  "static_zero N0 dflt =
     \<lparr>queue_size = N0, queue = (\<lambda>_. 0), left = 0, right = 0, counters = (\<lambda>_. 0),
      cells = [], heap = (\<lambda>_. dflt), brk = 1, cas_script = []\<rparr>"

definition new_object :: "'a \<Rightarrow> 'a state \<Rightarrow> addr \<times> 'a state" where
  "new_object v s = (brk s, s\<lparr>heap := (heap s)(brk s := v), brk := brk s + 1\<rparr>)"

definition init_static :: "uint \<Rightarrow> 'a \<Rightarrow> 'a state" where
  "init_static N0 dflt =
     (let s = fold (\<lambda>i s. let (p, s1) = new_object dflt s
                           in s1\<lparr>queue := (queue s1)(of_nat i := p)\<rparr>)
                   [0..<unat N0] (static_zero N0 dflt)
      in s\<lparr>right := queue_size s\<rparr>)"

text \<open>The constructor \<^verbatim>\<open>atomic_data( T0* object )\<close>; the result is the new instance.\<close>

definition atomic_data :: "addr \<Rightarrow> 'a state \<Rightarrow> cell \<times> 'a state" where
  "atomic_data object s = (length (cells s), s\<lparr>cells := cells s @ [object]\<rparr>)"

text \<open>
  The slots the queue holds: the entries from \<^verbatim>\<open>left\<close> up to \<^verbatim>\<open>right\<close>. No slot is
  twice in the queue and none is the current value of an instance.
\<close>

definition free_slots :: "'a state \<Rightarrow> addr list" where
  "free_slots s =
     map (\<lambda>i. queue s ((left s + of_nat i) mod array_size s)) [0..<unat (right s - left s)]"

definition slots_distinct :: "'a state \<Rightarrow> bool" where
  "slots_distinct s = distinct (free_slots s @ cells s)"

definition current :: "'a state \<Rightarrow> cell \<Rightarrow> 'a" where
  "current s c = heap s (cells s ! c)"

subsection \<open>The invariant of the queue\<close>

text \<open>
  \<open>ring q A l n\<close> are the \<open>n\<close> entries of the ring \<open>q\<close> of size \<open>A\<close> from index \<open>l\<close> on.
  The \<^verbatim>\<open>static_assert\<close> wants \<^verbatim>\<open>N0\<close> a power of two; \<^verbatim>\<open>array_size = 2 * N0\<close> must
  not wrap to zero, so the exponent is at most 30.
\<close>

definition ring :: "(uint \<Rightarrow> addr) \<Rightarrow> uint \<Rightarrow> uint \<Rightarrow> nat \<Rightarrow> addr list" where
  "ring q A l n = map (\<lambda>i. q ((l + of_nat i) mod A)) [0..<n]"

definition valid_queue_size :: "uint \<Rightarrow> bool" where
  "valid_queue_size N0 \<longleftrightarrow> N0 \<in> set (map (\<lambda>k. 2 ^ k) [0..<31])"

text \<open>
  \<open>queue_inv held s\<close>: with the slots \<open>held\<close> taken out of the queue by calls of
  \<^verbatim>\<open>update_weak\<close> that are under way, the queue holds the other \<^verbatim>\<open>queue_size\<close> slots, and
  the slots held, the slots in the queue and the current values of the instances are all
  different objects that \<^verbatim>\<open>new\<close> has handed out.
\<close>

definition queue_inv :: "addr list \<Rightarrow> 'a state \<Rightarrow> bool" where
  "queue_inv held s \<longleftrightarrow>
     valid_queue_size (queue_size s)
     \<and> unat (right s - left s) + length held = unat (queue_size s)
     \<and> distinct (held @ free_slots s @ cells s)
     \<and> (\<forall>p \<in> set (held @ free_slots s @ cells s). p < brk s)"

text \<open>No call is under way: nothing is held and nobody is registered with the counter.\<close>

definition quiescent :: "'a state \<Rightarrow> bool" where
  "quiescent s \<longleftrightarrow> queue_inv [] s \<and> counters s 0 = 0 \<and> counters s 1 = 0"

text \<open>
  \<^verbatim>\<open>update_weak\<close> in two halves, for the proofs: up to the copy (\<open>Inl\<close> is an early
  \<^verbatim>\<open>return false\<close>), and from the functor's return on.
\<close>

definition allocate :: "cell \<Rightarrow> 'a state \<Rightarrow> 'a state + addr \<times> addr \<times> uint \<times> 'a state" where
  "allocate c s =
     (if left s = right s then Inl s
      else if \<not> check_barrier s (left s) (right s) then Inl s
      else
        (case left_compare_exchange_weak (left s) (left s + 1) s of
           (False, s1) \<Rightarrow> Inl s1
         | (True, s1) \<Rightarrow>
            (let data_new = queue s1 (left s mod array_size s1);
                 data_old = cells s1 ! c;
                 (ticket, s2) = counter_guard s1;
                 s3 = s2\<lparr>heap := (heap s2)(data_new := heap s2 data_old)\<rparr>
             in Inr (data_new, data_old, ticket, s3))))"

definition publish ::
  "cell \<Rightarrow> addr \<Rightarrow> addr \<Rightarrow> uint \<Rightarrow> bool result \<times> 'x \<times> 'a state \<Rightarrow> bool result \<times> 'x \<times> 'a state" where
  "publish c data_new data_old ticket out =
     (case out of
        (Throws, x4, s4) \<Rightarrow> (Throws, x4, deallocate_guard_exit data_new ticket s4)
      | (Returns False, x4, s4) \<Rightarrow> (Returns False, x4, deallocate_guard_exit data_new ticket s4)
      | (Returns True, x4, s4) \<Rightarrow>
          (case data_compare_exchange_weak c data_old data_new s4 of
             (False, s5) \<Rightarrow> (Returns False, x4, deallocate_guard_exit data_new ticket s5)
           | (True, s5) \<Rightarrow> (Returns True, x4, deallocate_guard_exit data_old ticket s5)))"

text \<open>
  The values of all instances, and a functor that works on the object it is given and on
  the variables it captured only (\<open>on_object\<close> is one that captures nothing).
\<close>

definition "values" :: "'a state \<Rightarrow> 'a list" where
  "values s = map (heap s) (cells s)"

definition lifted ::
  "('a \<Rightarrow> 'x \<Rightarrow> 'r result \<times> 'x \<times> 'a) \<Rightarrow> addr \<Rightarrow> 'x \<Rightarrow> 'a state \<Rightarrow> 'r result \<times> 'x \<times> 'a state" where
  "lifted g p x s = (case g (heap s p) x of (r, x1, v) \<Rightarrow> (r, x1, s\<lparr>heap := (heap s)(p := v)\<rparr>))"

section \<open>The list of atomic\_list.h\<close>

text \<open>
  A \<^verbatim>\<open>node_ptr\<close> is a shared pointer to an \<^verbatim>\<open>atomic_data<node, N0>\<close>: an instance
  number, or \<open>None\<close> for the empty pointer. Instances are never destroyed in the model
  (reference counts are not modelled). An \<^verbatim>\<open>iterator\<close> is its member \<^verbatim>\<open>value\<close>.
\<close>

record 'v node =
  locked :: bool
  deleted :: bool
  data :: 'v
  "next" :: "cell option"

type_synonym node_ptr = "cell option"
type_synonym iterator = "cell option"

text \<open>The constructor \<^verbatim>\<open>atomic_list()\<close>: the head is an instance holding an empty node.\<close>

definition atomic_list :: "'v \<Rightarrow> 'v node state \<Rightarrow> cell \<times> 'v node state" where
  "atomic_list dflt s =
     (let (object, s1) = new_object \<lparr>locked = False, deleted = False, data = dflt, next = None\<rparr> s
      in atomic_data object s1)"

text \<open>\<^verbatim>\<open>iterator::operator++\<close> and \<^verbatim>\<open>iterator::operator*\<close>, for a non-empty iterator.\<close>

definition iterator_next :: "cell \<Rightarrow> 'v node state \<Rightarrow> node_ptr result \<times> 'v node state" where
  "iterator_next c s = read (observe next) c s"

definition iterator_deref :: "cell \<Rightarrow> 'v node state \<Rightarrow> 'v result \<times> 'v node state" where
  "iterator_deref c s = read (observe data) c s"

definition is_locked :: "iterator \<Rightarrow> 'v node state \<Rightarrow> bool result \<times> 'v node state" where
  "is_locked it s = (case it of None \<Rightarrow> (Returns False, s) | Some c \<Rightarrow> read (observe locked) c s)"

definition is_deleted :: "iterator \<Rightarrow> 'v node state \<Rightarrow> bool result \<times> 'v node state" where
  "is_deleted it s = (case it of None \<Rightarrow> (Returns False, s) | Some c \<Rightarrow> read (observe deleted) c s)"

text \<open>The functor of \<^verbatim>\<open>iterator::update_weak\<close> and the method itself.\<close>

definition set_data :: "'v \<Rightarrow> 'v node \<Rightarrow> bool result \<times> 'v node" where
  "set_data d node0 = (if locked node0 then (Returns False, node0) else (Returns True, node0\<lparr>data := d\<rparr>))"

definition iterator_update_weak :: "'v \<Rightarrow> cell \<Rightarrow> 'v node state \<Rightarrow> bool result \<times> 'v node state" where
  "iterator_update_weak d c s =
     (case update_weak (on_object (set_data d)) c () s of (r, _, s1) \<Rightarrow> (r, s1))"

text \<open>
  \<^verbatim>\<open>iterator::update\<close>: \<^verbatim>\<open>while( true ) { if( is_deleted() ) return false;
  if( update_weak( data ) ) break; } return true;\<close>
\<close>

partial_function (option) iterator_update ::
  "'v \<Rightarrow> cell \<Rightarrow> 'v node state \<Rightarrow> (bool result \<times> 'v node state) option" where
  "iterator_update d c s =
     (case is_deleted (Some c) s of
        (Throws, s1) \<Rightarrow> Some (Throws, s1)
      | (Returns gone, s1) \<Rightarrow>
          if gone then Some (Returns False, s1)
          else (case iterator_update_weak d c s1 of
                  (Throws, s2) \<Rightarrow> Some (Throws, s2)
                | (Returns ok, s2) \<Rightarrow>
                    if ok then Some (Returns True, s2) else iterator_update d c s2))"

text \<open>
  \<^verbatim>\<open>insert_after_weak\<close>: the functor captures \<^verbatim>\<open>node_new\<close> by reference; it makes the new
  node and a new instance for it and links it behind the copy of the node at \<open>pos\<close>.
\<close>

definition insert_fn ::
  "'v \<Rightarrow> addr \<Rightarrow> node_ptr \<Rightarrow> 'v node state \<Rightarrow> bool result \<times> node_ptr \<times> 'v node state" where
  "insert_fn v node0 node_new s =
     (if locked (heap s node0) then (Returns False, node_new, s)
      else
        (let (object, s1) = new_object
                \<lparr>locked = False, deleted = False, data = v, next = next (heap s node0)\<rparr> s;
             (c, s2) = atomic_data object s1;
             node_new = Some c;
             s3 = s2\<lparr>heap := (heap s2)(node0 := (heap s2 node0)\<lparr>next := node_new\<rparr>)\<rparr>
         in (Returns True, node_new, s3)))"

definition insert_after_weak ::
  "cell \<Rightarrow> 'v \<Rightarrow> 'v node state \<Rightarrow> iterator result \<times> 'v node state" where
  "insert_after_weak pos v s =
     (case update_weak (insert_fn v) pos None s of
        (Throws, node_new, s1) \<Rightarrow> (Throws, s1)
      | (Returns r, node_new, s1) \<Rightarrow> (Returns (if r then node_new else None), s1))"

definition push_front :: "cell \<Rightarrow> 'v \<Rightarrow> 'v node state \<Rightarrow> iterator result \<times> 'v node state" where
  "push_front list v s = insert_after_weak list v s"

text \<open>
  \<^verbatim>\<open>erase_after_weak\<close>. The inner functor (it captures \<^verbatim>\<open>node_after\<close>) locks the node
  behind \<open>pos\<close>; the outer one (it captures \<^verbatim>\<open>node_next\<close>) runs the inner
  \<^verbatim>\<open>update_weak\<close> and unlinks.
\<close>

definition lock_fn ::
  "addr \<Rightarrow> node_ptr \<Rightarrow> 'v node state \<Rightarrow> bool result \<times> node_ptr \<times> 'v node state" where
  "lock_fn node0 node_after s =
     (if locked (heap s node0) then (Returns False, node_after, s)
      else
        (let s1 = s\<lparr>heap := (heap s)(node0 := (heap s node0)\<lparr>locked := True\<rparr>)\<rparr>;
             node_after = next (heap s1 node0)
         in (Returns True, node_after, s1)))"

definition erase_fn ::
  "addr \<Rightarrow> node_ptr \<Rightarrow> 'v node state \<Rightarrow> bool result \<times> node_ptr \<times> 'v node state" where
  "erase_fn node0 node_next s =
     (if locked (heap s node0) then (Returns False, node_next, s)
      else
        (let node_next = next (heap s node0) in
         case node_next of
           None \<Rightarrow> (Returns False, node_next, s)
         | Some victim \<Rightarrow>
             (case update_weak lock_fn victim None s of
                (Throws, node_after, s1) \<Rightarrow> (Throws, node_next, s1)
              | (Returns r, node_after, s1) \<Rightarrow>
                  if \<not> r then (Returns False, None, s1)
                  else (Returns True, node_next,
                        s1\<lparr>heap := (heap s1)(node0 := (heap s1 node0)\<lparr>next := node_after\<rparr>)\<rparr>))))"

definition unlock :: "'v node \<Rightarrow> bool result \<times> 'v node" where
  "unlock node0 = (Returns True, node0\<lparr>locked := False\<rparr>)"

definition mark_deleted :: "'v node \<Rightarrow> bool result \<times> 'v node" where
  "mark_deleted node0 = (Returns True, node0\<lparr>deleted := True\<rparr>)"

text \<open>The first statement of \<^verbatim>\<open>erase_after_weak\<close>: the outer \<^verbatim>\<open>update_weak\<close>.\<close>

definition erase_attempt ::
  "cell \<Rightarrow> 'v node state \<Rightarrow> bool result \<times> node_ptr \<times> 'v node state" where
  "erase_attempt pos s = update_weak erase_fn pos None s"

text \<open>
  The rest of it. \<open>None\<close> is a call that does not return: a strong \<^verbatim>\<open>update\<close> that loops
  forever, or \<^verbatim>\<open>node_next->update\<close> on an empty pointer.
\<close>

definition erase_after_weak ::
  "cell \<Rightarrow> 'v node state \<Rightarrow> (iterator result \<times> 'v node state) option" where
  "erase_after_weak pos s =
     (case erase_attempt pos s of
        (Throws, node_next, s1) \<Rightarrow> Some (Throws, s1)
      | (Returns r, node_next, s1) \<Rightarrow>
          if \<not> r then
            (case node_next of
               Some victim \<Rightarrow>
                 (case update (on_object unlock) victim () s1 of
                    None \<Rightarrow> None
                  | Some (Throws, _, s2) \<Rightarrow> Some (Throws, s2)
                  | Some (Returns _, _, s2) \<Rightarrow> Some (Returns None, s2))
             | None \<Rightarrow> Some (Returns None, s1))
          else
            (case node_next of
               None \<Rightarrow> None
             | Some victim \<Rightarrow>
                 (case update (on_object mark_deleted) victim () s1 of
                    None \<Rightarrow> None
                  | Some (Throws, _, s2) \<Rightarrow> Some (Throws, s2)
                  | Some (Returns _, _, s2) \<Rightarrow> Some (Returns node_next, s2))))"

text \<open>\<^verbatim>\<open>empty\<close>: whether the head has no successor.\<close>

definition empty :: "cell \<Rightarrow> 'v node state \<Rightarrow> bool result \<times> 'v node state" where
  "empty list s =
     (case read (observe (\<lambda>node0. next node0 \<noteq> None)) list s of
        (Throws, s1) \<Rightarrow> (Throws, s1)
      | (Returns b, s1) \<Rightarrow> (Returns (\<not> b), s1))"

text \<open>
  \<^verbatim>\<open>pop_front\<close>: \<^verbatim>\<open>while( ! empty() && ! (it = erase_after_weak( pos )) ); return it;\<close>
  with \<open>it\<close> the iterator the loop carries, empty at the start.
\<close>

partial_function (option) pop_front_loop ::
  "cell \<Rightarrow> iterator \<Rightarrow> 'v node state \<Rightarrow> (iterator result \<times> 'v node state) option" where
  "pop_front_loop list it s =
     (case empty list s of
        (Throws, s1) \<Rightarrow> Some (Throws, s1)
      | (Returns e, s1) \<Rightarrow>
          if e then Some (Returns it, s1)
          else (case erase_after_weak list s1 of
                  None \<Rightarrow> None
                | Some (Throws, s2) \<Rightarrow> Some (Throws, s2)
                | Some (Returns it2, s2) \<Rightarrow>
                    if it2 \<noteq> None then Some (Returns it2, s2) else pop_front_loop list it2 s2))"

definition pop_front :: "cell \<Rightarrow> 'v node state \<Rightarrow> (iterator result \<times> 'v node state) option" where
  "pop_front list s = pop_front_loop list None s"

section \<open>Example programs\<close>

text \<open>
  An \<^verbatim>\<open>atomic_data<unsigned, N0>\<close> holding \<open>v\<close>, as the vector sample makes them; its
  functor \<^verbatim>\<open>(*data)++; return true;\<close>; and a functor that changes its copy and throws.
\<close>

definition cell_u32 :: "uint \<Rightarrow> uint \<Rightarrow> cell \<times> uint state" where
  "cell_u32 N0 v = (let (p, s) = new_object v (init_static N0 0) in atomic_data p s)"

definition increment :: "uint \<Rightarrow> bool result \<times> uint" where
  "increment v = (Returns True, v + 1)"


text \<open>The same cell while somebody is registered with both usage counters.\<close>

definition at_barrier :: "uint state" where
  "at_barrier = (snd (cell_u32 2 5))\<lparr>counters := (\<lambda>i. 1)\<rparr>"

text \<open>
  A list of \<^verbatim>\<open>atomic_list<unsigned, 2>\<close>: the head (instance 0), then instance 1 with
  data 7, then instance 2 with data 5; the queue holds its two slots. \<open>after_erase\<close> is
  that list after \<^verbatim>\<open>erase_after_weak\<close> of the node behind the head went through: the outer
  \<^verbatim>\<open>update_weak\<close> and the update that marks the node deleted. \<open>empty_list\<close> is a head alone.
\<close>

definition blank :: "nat node" where
  "blank = \<lparr>locked = False, deleted = False, data = 0, next = None\<rparr>"

definition two_nodes :: "nat node state" where
  "two_nodes =
     \<lparr>queue_size = 2, queue = (\<lambda>i. if i = 0 then 1 else if i = 1 then 2 else 0),
      left = 0, right = 2, counters = (\<lambda>_. 0), cells = [3, 4, 5],
      heap = (\<lambda>a. if a = 3 then blank\<lparr>next := Some 1\<rparr>
                  else if a = 4 then blank\<lparr>data := 7, next := Some 2\<rparr>
                  else if a = 5 then blank\<lparr>data := 5\<rparr> else blank),
      brk = 6, cas_script = []\<rparr>"

definition after_erase :: "nat node state" where
  "after_erase =
     snd (snd (update_weak (on_object mark_deleted) 1 () (snd (snd (erase_attempt 0 two_nodes)))))"

definition empty_list :: "nat node state" where
  "empty_list =
     \<lparr>queue_size = 2, queue = (\<lambda>i. if i = 0 then 1 else if i = 1 then 2 else 0),
      left = 0, right = 2, counters = (\<lambda>_. 0), cells = [3], heap = (\<lambda>a. blank),
      brk = 4, cas_script = []\<rparr>"

subsection \<open>The invariants of the list\<close>

text \<open>
  Every \<^verbatim>\<open>next\<close> is empty or an instance that exists; a deleted node is locked. The list
  operations start in a quiescent state with valid links.
\<close>

definition links_ok :: "'v node list \<Rightarrow> bool" where
  "links_ok ns \<longleftrightarrow> (\<forall>n \<in> set ns. case next n of None \<Rightarrow> True | Some c \<Rightarrow> c < length ns)"

definition locked_if_deleted :: "'v node list \<Rightarrow> bool" where
  "locked_if_deleted ns \<longleftrightarrow> (\<forall>n \<in> set ns. deleted n \<longrightarrow> locked n)"

definition links_valid :: "'v node state \<Rightarrow> bool" where
  "links_valid s \<longleftrightarrow> links_ok (values s)"

definition deleted_locked :: "'v node state \<Rightarrow> bool" where
  "deleted_locked s \<longleftrightarrow> locked_if_deleted (values s)"

text \<open>
  From the nodes \<open>ns\<close> to the nodes \<open>ns'\<close> no node is lost, and a node that was deleted is
  still deleted and locked.
\<close>

definition flags_kept :: "'v node list \<Rightarrow> 'v node list \<Rightarrow> bool" where
  "flags_kept ns ns' \<longleftrightarrow>
     length ns \<le> length ns'
     \<and> (\<forall>c < length ns. deleted (ns ! c) \<longrightarrow> deleted (ns' ! c) \<and> locked (ns' ! c))"

definition list_inv :: "'v node state \<Rightarrow> bool" where
  "list_inv s \<longleftrightarrow> quiescent s \<and> links_valid s"

text \<open>
  The list \<open>two_nodes\<close> when the fourth \<^verbatim>\<open>compare_exchange_weak\<close> from now on fails: in
  \<^verbatim>\<open>erase_after_weak\<close> that is the one of the outer \<^verbatim>\<open>update_weak\<close> on \<^verbatim>\<open>data\<close>.
\<close>

definition two_nodes_contended :: "nat node state" where
  "two_nodes_contended = two_nodes\<lparr>cas_script := [True, True, True, False]\<rparr>"

subsection \<open>The operations of the list, as one step\<close>

text \<open>
  The operations a caller has: the methods of the list (its head is \<open>list\<close>) and of an
  iterator at an instance. \<open>None\<close> is a call that does not return.
\<close>

datatype 'v list_op =
    Push_front 'v
  | Insert_after_weak cell 'v
  | Erase_after_weak cell
  | Pop_front
  | Iterator_update cell 'v
  | Iterator_update_weak cell 'v

fun apply_op :: "cell \<Rightarrow> 'v list_op \<Rightarrow> 'v node state \<Rightarrow> 'v node state option" where
  "apply_op list (Push_front v) s = Some (snd (push_front list v s))"
| "apply_op list (Insert_after_weak pos v) s = Some (snd (insert_after_weak pos v s))"
| "apply_op list (Erase_after_weak pos) s = map_option snd (erase_after_weak pos s)"
| "apply_op list Pop_front s = map_option snd (pop_front list s)"
| "apply_op list (Iterator_update c v) s = map_option snd (iterator_update v c s)"
| "apply_op list (Iterator_update_weak c v) s = Some (snd (iterator_update_weak v c s))"

text \<open>The iterator an operation is given points to an instance that exists.\<close>

fun op_ok :: "'v list_op \<Rightarrow> 'v node state \<Rightarrow> bool" where
  "op_ok (Insert_after_weak pos v) s = (pos < length (cells s))"
| "op_ok (Erase_after_weak pos) s = (pos < length (cells s))"
| "op_ok (Iterator_update c v) s = (c < length (cells s))"
| "op_ok (Iterator_update_weak c v) s = (c < length (cells s))"
| "op_ok _ s = True"

text \<open>What every operation of the list keeps, from the state before to the state after.\<close>

definition list_step :: "'v node state \<Rightarrow> 'v node state \<Rightarrow> bool" where
  "list_step s s' \<longleftrightarrow>
     list_inv s' \<and> deleted_locked s' \<and> flags_kept (values s) (values s')"

text \<open>The state \<open>after_erase\<close>, written out.\<close>

definition one_erased :: "nat node state" where
  "one_erased =
     \<lparr>queue_size = 2,
      queue = (\<lambda>i. if i = 0 then 2 else if i = 1 then 2 else if i = 2 then 4
                  else if i = 3 then 3 else 0),
      left = 3, right = 5, counters = (\<lambda>_. 0), cells = [1, 4, 5],
      heap = (\<lambda>a. if a = 1 then blank\<lparr>next := Some 2\<rparr>
                  else if a = 2 then blank\<lparr>locked := True, data := 7, next := Some 2\<rparr>
                  else if a = 3 then blank\<lparr>next := Some 1\<rparr>
                  else if a = 4 then blank\<lparr>locked := True, deleted := True, data := 7,
                                       next := Some 2\<rparr>
                  else if a = 5 then blank\<lparr>data := 5\<rparr> else blank),
      brk = 6, cas_script = []\<rparr>"

section \<open>The calls step by step\<close>

text \<open>
  For what other threads can see, and for counting a thread's own steps, \<^verbatim>\<open>read\<close> and
  \<^verbatim>\<open>update_weak\<close> are also given as machines that do one access to shared memory per step.
  The program counter carries the local variables. The functor works on its object only:
  for \<^verbatim>\<open>read\<close> it maps the value to the result, for \<^verbatim>\<open>update_weak\<close> to the result and
  the value it leaves.
\<close>

datatype 'r rpc =
    R_guard_right
  | R_guard_inc uint
  | R_load_data uint
  | R_fn uint addr
  | R_guard_dec uint "'r result"
  | R_done "'r result"

fun rstep :: "('a \<Rightarrow> 'r result) \<Rightarrow> cell \<Rightarrow> 'r rpc \<Rightarrow> 'a state \<Rightarrow> 'r rpc \<times> 'a state" where
  "rstep fn c R_guard_right s = (R_guard_inc (right s), s)"
| "rstep fn c (R_guard_inc queue_right) s = (R_load_data queue_right, inc queue_right s)"
| "rstep fn c (R_load_data queue_right) s = (R_fn queue_right (cells s ! c), s)"
| "rstep fn c (R_fn queue_right p) s = (R_guard_dec queue_right (fn (heap s p)), s)"
| "rstep fn c (R_guard_dec queue_right r) s = (R_done r, dec queue_right s)"
| "rstep fn c (R_done r) s = (R_done r, s)"

datatype upc =
    U_load_left
  | U_load_right uint
  | U_counter uint uint
  | U_cas_left uint uint
  | U_slot uint
  | U_load_data addr
  | U_guard_right addr addr
  | U_guard_inc addr addr uint
  | U_copy addr addr uint
  | U_fn addr addr uint
  | U_cas_data addr addr uint
  | U_right_add addr uint "bool result"
  | U_store addr uint uint "bool result"
  | U_guard_dec uint "bool result"
  | U_done "bool result"

fun ustep :: "('a \<Rightarrow> bool result \<times> 'a) \<Rightarrow> cell \<Rightarrow> upc \<Rightarrow> 'a state \<Rightarrow> upc \<times> 'a state" where
  "ustep fn c U_load_left s = (U_load_right (left s), s)"
| "ustep fn c (U_load_right queue_left) s =
     (let queue_right = right s in
      if queue_left = queue_right then (U_done (Returns False), s)
      else if queue_left mod queue_size s = 0 then
        (if queue_right - queue_left < queue_size s then (U_done (Returns False), s)
         else (U_counter queue_left queue_right, s))
      else (U_cas_left queue_left queue_right, s))"
| "ustep fn c (U_counter queue_left queue_right) s =
     (if is_used s queue_right then (U_done (Returns False), s)
      else (U_cas_left queue_left queue_right, s))"
| "ustep fn c (U_cas_left queue_left queue_right) s =
     (case left_compare_exchange_weak queue_left (queue_left + 1) s of
        (False, s1) \<Rightarrow> (U_done (Returns False), s1)
      | (True, s1) \<Rightarrow> (U_slot queue_left, s1))"
| "ustep fn c (U_slot queue_left) s = (U_load_data (queue s (queue_left mod array_size s)), s)"
| "ustep fn c (U_load_data data_new) s = (U_guard_right data_new (cells s ! c), s)"
| "ustep fn c (U_guard_right data_new data_old) s = (U_guard_inc data_new data_old (right s), s)"
| "ustep fn c (U_guard_inc data_new data_old ticket) s =
     (U_copy data_new data_old ticket, inc ticket s)"
| "ustep fn c (U_copy data_new data_old ticket) s =
     (U_fn data_new data_old ticket, s\<lparr>heap := (heap s)(data_new := heap s data_old)\<rparr>)"
| "ustep fn c (U_fn data_new data_old ticket) s =
     (case fn (heap s data_new) of
        (Throws, v) \<Rightarrow> (U_right_add data_new ticket Throws, s\<lparr>heap := (heap s)(data_new := v)\<rparr>)
      | (Returns ok, v) \<Rightarrow>
          (if ok then U_cas_data data_new data_old ticket
           else U_right_add data_new ticket (Returns False),
           s\<lparr>heap := (heap s)(data_new := v)\<rparr>))"
| "ustep fn c (U_cas_data data_new data_old ticket) s =
     (case data_compare_exchange_weak c data_old data_new s of
        (False, s1) \<Rightarrow> (U_right_add data_new ticket (Returns False), s1)
      | (True, s1) \<Rightarrow> (U_right_add data_old ticket (Returns True), s1))"
| "ustep fn c (U_right_add p ticket r) s = (U_store p ticket (right s) r, s\<lparr>right := right s + 1\<rparr>)"
| "ustep fn c (U_store p ticket idx r) s =
     (U_guard_dec ticket r, s\<lparr>queue := (queue s)(idx mod array_size s := p)\<rparr>)"
| "ustep fn c (U_guard_dec ticket r) s = (U_done r, dec ticket s)"
| "ustep fn c (U_done r) s = (U_done r, s)"

text \<open>
  A thread is between two calls or inside one. It runs the calls of a list one after the
  other; beginning the next call is a step of its own.
\<close>

datatype ('a, 'r) call = Read "'a \<Rightarrow> 'r result" cell | Update_weak "'a \<Rightarrow> bool result \<times> 'a" cell

datatype ('a, 'r) pc =
    Idle
  | Reading "'a \<Rightarrow> 'r result" cell "'r rpc"
  | Updating "'a \<Rightarrow> bool result \<times> 'a" cell upc

fun begin_call :: "('a, 'r) call \<Rightarrow> ('a, 'r) pc" where
  "begin_call (Read fn c) = Reading fn c R_guard_right"
| "begin_call (Update_weak fn c) = Updating fn c U_load_left"

fun finished :: "('a, 'r) pc \<Rightarrow> bool" where
  "finished Idle = True"
| "finished (Reading fn c (R_done r)) = True"
| "finished (Updating fn c (U_done r)) = True"
| "finished _ = False"

fun tstep :: "('a, 'r) pc \<Rightarrow> 'a state \<Rightarrow> ('a, 'r) pc \<times> 'a state" where
  "tstep Idle s = (Idle, s)"
| "tstep (Reading fn c p) s = (case rstep fn c p s of (p1, s1) \<Rightarrow> (Reading fn c p1, s1))"
| "tstep (Updating fn c p) s = (case ustep fn c p s of (p1, s1) \<Rightarrow> (Updating fn c p1, s1))"

fun steps :: "('a, 'r) call list \<Rightarrow> nat \<Rightarrow> ('a, 'r) pc \<times> 'a state \<Rightarrow> ('a, 'r) pc \<times> 'a state" where
  "steps cs 0 cfg = cfg"
| "steps cs (Suc n) (p, s) =
     (if finished p then
        (case cs of [] \<Rightarrow> (p, s) | call # cs1 \<Rightarrow> steps cs1 n (begin_call call, s))
      else steps cs n (tstep p s))"

text \<open>Between taking a slot at \<^verbatim>\<open>left\<close> and giving one back at \<^verbatim>\<open>right\<close>.\<close>

fun holding :: "('a, 'r) pc \<Rightarrow> bool" where
  "holding (Updating fn c (U_slot l)) = True"
| "holding (Updating fn c (U_load_data p)) = True"
| "holding (Updating fn c (U_guard_right p q)) = True"
| "holding (Updating fn c (U_guard_inc p q t)) = True"
| "holding (Updating fn c (U_copy p q t)) = True"
| "holding (Updating fn c (U_fn p q t)) = True"
| "holding (Updating fn c (U_cas_data p q t)) = True"
| "holding (Updating fn c (U_right_add p t r)) = True"
| "holding _ = False"

text \<open>
  The own steps of one thread among others: before its step number \<open>i\<close> the other threads
  turn the shared state \<open>s\<close> into \<open>env i s\<close>, whatever that is.
\<close>

fun interleave ::
  "('p \<Rightarrow> 's \<Rightarrow> 'p \<times> 's) \<Rightarrow> (nat \<Rightarrow> 's \<Rightarrow> 's) \<Rightarrow> nat \<Rightarrow> 'p \<times> 's \<Rightarrow> 'p \<times> 's" where
  "interleave step env 0 cfg = cfg"
| "interleave step env (Suc n) (p, s) = interleave step (\<lambda>i. env (Suc i)) n (step p (env 0 s))"

section \<open>The cell of src/atomic\_data.h\<close>

text \<open>
  The older \<^verbatim>\<open>atomic_data\<close> has one usage counter and the signal \<^verbatim>\<open>no_reading\<close>, both
  \<^verbatim>\<open>atomic<int>\<close>. Its \<^verbatim>\<open>read\<close> begins with \<^verbatim>\<open>while( no_reading.load() ) yield();\<close>
  and \<^verbatim>\<open>sync\<close>, which \<^verbatim>\<open>update_weak\<close> calls first, holds \<^verbatim>\<open>no_reading\<close> up while it is at
  the barrier. Only \<^verbatim>\<open>read\<close> and \<^verbatim>\<open>sync\<close> are modelled, step by step.
\<close>

record 'a legacy_state =
  l_queue_size :: uint
  l_queue :: "uint \<Rightarrow> addr"
  l_left :: uint
  l_right :: uint
  counter_usage :: uint
  counter_sync :: uint
  no_reading :: uint
  l_data :: addr
  l_heap :: "addr \<Rightarrow> 'a"

datatype 'r lpc =
    L_wait
  | L_enter
  | L_load_data
  | L_fn addr
  | L_leave "'r result"
  | L_done "'r result"

fun legacy_read_step :: "('a \<Rightarrow> 'r result) \<Rightarrow> 'r lpc \<Rightarrow> 'a legacy_state \<Rightarrow> 'r lpc \<times> 'a legacy_state" where
  "legacy_read_step fn L_wait s = (if no_reading s \<noteq> 0 then (L_wait, s) else (L_enter, s))"
| "legacy_read_step fn L_enter s = (L_load_data, s\<lparr>counter_usage := counter_usage s + 1\<rparr>)"
| "legacy_read_step fn L_load_data s = (L_fn (l_data s), s)"
| "legacy_read_step fn (L_fn p) s = (L_leave (fn (l_heap s p)), s)"
| "legacy_read_step fn (L_leave r) s = (L_done r, s\<lparr>counter_usage := counter_usage s - 1\<rparr>)"
| "legacy_read_step fn (L_done r) s = (L_done r, s)"

text \<open>\<^verbatim>\<open>auto left_old = left.load(); if( ! sync( left_old ) ) return false;\<close>\<close>

datatype spc =
    S_load_left
  | S_test uint
  | S_enter
  | S_counter
  | S_count
  | S_sleep
  | S_leave bool
  | S_return bool

fun sync_step :: "spc \<Rightarrow> 'a legacy_state \<Rightarrow> spc \<times> 'a legacy_state" where
  "sync_step S_load_left s = (S_test (l_left s), s)"
| "sync_step (S_test left_old) s =
     (if left_old mod l_queue_size s = 0 then (S_enter, s) else (S_return True, s))"
| "sync_step S_enter s = (S_counter, s\<lparr>no_reading := no_reading s + 1\<rparr>)"
| "sync_step S_counter s = (if counter_usage s = 0 then (S_leave True, s) else (S_count, s))"
| "sync_step S_count s = (S_sleep, s\<lparr>counter_sync := counter_sync s + 1\<rparr>)"
| "sync_step S_sleep s = (S_leave False, s)"
| "sync_step (S_leave b) s = (S_return b, s\<lparr>no_reading := no_reading s - 1\<rparr>)"
| "sync_step (S_return b) s = (S_return b, s)"

text \<open>
  The state after the constructor \<^verbatim>\<open>atomic_data( T0* object )\<close> with \<^verbatim>\<open>N0 = 2\<close>: the
  object is at address 1, the two queue elements at 2 and 3. Then a writer has done the
  first three steps of \<^verbatim>\<open>update_weak\<close>: it is inside \<^verbatim>\<open>sync\<close>, at the barrier.
\<close>

definition legacy_init :: "uint legacy_state" where
  "legacy_init =
     \<lparr>l_queue_size = 2, l_queue = (\<lambda>i. if i = 0 then 2 else if i = 1 then 3 else 0),
      l_left = 0, l_right = 2, counter_usage = 0, counter_sync = 0, no_reading = 0,
      l_data = 1, l_heap = (\<lambda>a. if a = 1 then 5 else 0)\<rparr>"

definition writer_in_sync :: "spc \<times> uint legacy_state" where
  "writer_in_sync = interleave sync_step (\<lambda>i s. s) 3 (S_load_left, legacy_init)"

text \<open>
  An \<^verbatim>\<open>atomic_data<unsigned, 1>\<close> after the first five steps of a thread that calls
  \<^verbatim>\<open>update_weak\<close>: the call has taken the slot.
\<close>

definition slot_taken :: "(uint, uint) pc \<times> uint state" where
  "slot_taken = steps [Update_weak increment 0] 5 (Idle, snd (cell_u32 1 5))"

text \<open>A reader of the older cell after a thousand steps of its own beside that writer.\<close>

definition reader_waiting :: "uint lpc \<times> uint legacy_state" where
  "reader_waiting =
     interleave (legacy_read_step Returns) (\<lambda>i s. s) 1000 (L_wait, snd writer_in_sync)"

section \<open>Threads and calls inside functors\<close>

text \<open>
  Several threads, and functors that call \<^verbatim>\<open>read\<close> and \<^verbatim>\<open>update_weak\<close> themselves: a
  thread has a stack of calls in progress, the innermost first. A thread between two calls
  begins a call; a call that is at its functor begins a call from inside the functor (any
  number of them, before the functor works on its object); the innermost call does a step;
  a call that is done returns to its caller. The events of a run say which thread does what,
  in which order.
\<close>

datatype ('a, 'r) event = Begin nat "('a, 'r) call" | Step nat | Return nat

fun at_functor :: "('a, 'r) pc \<Rightarrow> bool" where
  "at_functor (Reading fn c (R_fn t p)) = True"
| "at_functor (Updating fn c (U_fn p q t)) = True"
| "at_functor _ = False"

fun may_begin :: "('a, 'r) pc list \<Rightarrow> bool" where
  "may_begin [] = True"
| "may_begin (f # fs) = at_functor f"

fun exec ::
  "('a, 'r) event \<Rightarrow> ('a, 'r) pc list list \<times> 'a state \<Rightarrow> ('a, 'r) pc list list \<times> 'a state" where
  "exec (Begin t call) (ths, s) =
     (if t < length ths \<and> may_begin (ths ! t) then (ths[t := begin_call call # ths ! t], s)
      else (ths, s))"
| "exec (Step t) (ths, s) =
     (if t < length ths then
        (case ths ! t of
           [] \<Rightarrow> (ths, s)
         | f # fs \<Rightarrow> (case tstep f s of (f1, s1) \<Rightarrow> (ths[t := f1 # fs], s1)))
      else (ths, s))"
| "exec (Return t) (ths, s) =
     (if t < length ths then
        (case ths ! t of
           [] \<Rightarrow> (ths, s)
         | f # fs \<Rightarrow> if finished f then (ths[t := fs], s) else (ths, s))
      else (ths, s))"

fun run ::
  "('a, 'r) event list \<Rightarrow> ('a, 'r) pc list list \<times> 'a state \<Rightarrow> ('a, 'r) pc list list \<times> 'a state" where
  "run [] cfg = cfg"
| "run (e # es) cfg = run es (exec e cfg)"

text \<open>The calls that hold a slot, of all threads.\<close>

definition holders :: "('a, 'r) pc list list \<Rightarrow> nat" where
  "holders ths = length (filter holding (concat ths))"

text \<open>
  What a call of \<^verbatim>\<open>update_weak\<close> knows of the indices it has loaded, before it takes a
  slot: they are not ahead of the indices, and the queue was not empty.
\<close>

fun snapshot_ok :: "'a state \<Rightarrow> ('a, 'r) pc \<Rightarrow> bool" where
  "snapshot_ok s (Updating fn c (U_load_right l)) = (unat l \<le> unat (left s))"
| "snapshot_ok s (Updating fn c (U_counter l r)) =
     (unat l \<le> unat (left s) \<and> unat r \<le> unat (right s) \<and> unat l < unat r)"
| "snapshot_ok s (Updating fn c (U_cas_left l r)) =
     (unat l \<le> unat (left s) \<and> unat r \<le> unat (right s) \<and> unat l < unat r)"
| "snapshot_ok s _ = True"

definition indices_inv :: "uint \<Rightarrow> ('a, 'r) pc list list \<times> 'a state \<Rightarrow> bool" where
  "indices_inv N0 cfg \<longleftrightarrow>
     queue_size (snd cfg) = N0
     \<and> right (snd cfg) - left (snd cfg) + of_nat (holders (fst cfg)) = N0"

definition short_run_inv :: "nat \<Rightarrow> uint \<Rightarrow> ('a, 'r) pc list list \<times> 'a state \<Rightarrow> bool" where
  "short_run_inv n N0 cfg \<longleftrightarrow>
     unat (left (snd cfg)) \<le> n
     \<and> unat (left (snd cfg)) \<le> unat (right (snd cfg))
     \<and> unat (right (snd cfg)) \<le> n + unat N0
     \<and> unat (right (snd cfg)) + holders (fst cfg) = unat (left (snd cfg)) + unat N0
     \<and> list_all (snapshot_ok (snd cfg)) (concat (fst cfg))"

text \<open>
  Two threads on a queue of two slots: the first calls \<^verbatim>\<open>update_weak\<close> and its functor
  calls \<^verbatim>\<open>update_weak\<close> again, until both calls hold a slot; the second begins to read.
\<close>

definition nested_events :: "(uint, uint) event list" where
  "nested_events =
     Begin 0 (Update_weak increment 0) # replicate 9 (Step 0)
     @ Begin 0 (Update_weak increment 0) # replicate 3 (Step 0)
     @ [Begin 1 (Read Returns 0), Step 1]"

definition two_holders :: "(uint, uint) pc list list \<times> uint state" where
  "two_holders = run nested_events (replicate 2 [], snd (cell_u32 2 5))"

section \<open>Ring arithmetic\<close>
lemma pow2_mod_inj_nat:
  fixes a :: nat
  assumes "i < d" "d < m" "(a + i) mod m = (a + d) mod m"
  shows False
proof -
  have "m dvd (a + d) - (a + i)"
    using assms by (subst mod_eq_dvd_iff_nat [symmetric]) simp_all
  then have "m dvd d - i" by simp
  then have "m \<le> d - i" using assms by (intro dvd_imp_le) simp_all
  then show False using assms by simp
qed

lemma unat_pow2: "k < 32 \<Longrightarrow> unat (2 ^ k :: uint) = 2 ^ k"
proof -
  assume k: "k < 32"
  have "(2 :: uint) ^ k = of_nat (2 ^ k)" by simp
  moreover have "(2::nat) ^ k < 2 ^ 32" using k by (intro power_strict_increasing) simp_all
  ultimately show ?thesis by (simp add: unat_of_nat del: of_nat_power of_nat_numeral)
qed

lemma unat_ring_index:
  fixes l :: uint
  assumes "k < 32"
  shows "unat ((l + of_nat i) mod 2 ^ k) = (unat l + i) mod 2 ^ k"
proof -
  have d: "(2::nat) ^ k dvd 2 ^ 32" using assms by (intro le_imp_power_dvd) simp
  have "unat ((l + of_nat i) mod 2 ^ k) = unat (l + of_nat i) mod 2 ^ k"
    using assms by (simp add: unat_mod unat_pow2)
  also have "unat (l + of_nat i :: uint) = (unat l + i) mod 2 ^ 32"
    by (simp add: unat_word_ariths unat_of_nat mod_add_right_eq)
  also have "(unat l + i) mod 2 ^ 32 mod 2 ^ k = (unat l + i) mod 2 ^ k"
    using d by (rule mod_mod_cancel)
  finally show ?thesis .
qed

lemma ring_index_neq:
  fixes l :: uint
  assumes "k < 32" "i < d" "d < 2 ^ k"
  shows "(l + of_nat i) mod 2 ^ k \<noteq> (l + of_nat d) mod 2 ^ k"
proof
  assume "(l + of_nat i) mod 2 ^ k = (l + of_nat d) mod 2 ^ k"
  then have "unat ((l + of_nat i) mod 2 ^ k) = unat ((l + of_nat d) mod 2 ^ k)" by simp
  then have "(unat l + i) mod 2 ^ k = (unat l + d) mod 2 ^ k"
    using assms(1) by (simp add: unat_ring_index)
  then show False using assms pow2_mod_inj_nat by blast
qed

lemma ring_Cons: "0 < n \<Longrightarrow> ring q A l n = q (l mod A) # ring q A (l + 1) (n - 1)"
proof -
  assume "0 < n"
  then obtain m where n: "n = Suc m" by (cases n) auto
  have "[0..<Suc m] = 0 # map Suc [0..<m]"
    by (simp add: upt_conv_Cons map_Suc_upt del: upt_Suc)
  then show ?thesis
    by (simp add: ring_def n o_def add.assoc add.commute[of 1] del: upt_Suc)
qed

lemma ring_snoc:
  assumes "k < 32" "n < 2 ^ k"
  shows "ring (q((l + of_nat n) mod 2 ^ k := p)) (2 ^ k) l (Suc n) = ring q (2 ^ k) l n @ [p]"
  using assms by (auto simp: ring_def ring_index_neq)

lemma free_slots_ring:
  "free_slots s = ring (queue s) (array_size s) (left s) (unat (right s - left s))"
  by (simp add: free_slots_def ring_def)



lemma valid_queue_sizeD:
  assumes "valid_queue_size n"
  obtains k where "k < 31" "n = 2 ^ k" "unat n = 2 ^ k"
proof -
  from assms obtain k where k: "k < 31" "n = 2 ^ k"
    by (auto simp: valid_queue_size_def)
  then have "unat n = 2 ^ k" by (simp add: unat_pow2)
  with k show ?thesis by (rule that)
qed

lemma array_size_pow2:
  assumes "queue_size s = 2 ^ k"
  shows "array_size s = 2 ^ Suc k"
  using assms by (simp add: array_size_def)

text \<open>Taking the slot at \<^verbatim>\<open>left\<close>, and storing a slot at \<^verbatim>\<open>right\<close>.\<close>

lemma free_slots_take:
  assumes "left s \<noteq> right s"
  shows "free_slots s = queue s (left s mod array_size s)
           # ring (queue s) (array_size s) (left s + 1) (unat (right s - (left s + 1)))"
proof -
  have nz: "right s - left s \<noteq> 0" using assms by simp
  then have pos: "0 < unat (right s - left s)" by (simp add: unat_gt_0)
  have e: "right s - (left s + 1) = right s - left s - 1" by simp
  have "unat (right s - (left s + 1)) = unat (right s - left s) - 1"
    unfolding e using nz by (rule unat_minus_one)
  then show ?thesis
    using ring_Cons [OF pos] by (simp add: free_slots_ring)
qed


lemma free_slots_put:
  assumes "queue_size s = 2 ^ k" "k < 31" "unat (right s - left s) < 2 ^ k"
  shows "ring ((queue s)(right s mod array_size s := p)) (array_size s) (left s)
           (unat (right s + 1 - left s)) = free_slots s @ [p]"
proof -
  let ?n = "unat (right s - left s)"
  have r: "right s = left s + of_nat ?n" by simp
  have "?n + 1 < 2 ^ 32"
  proof -
    have "(2::nat) ^ k < 2 ^ 31" using assms(2) by (intro power_strict_increasing) simp_all
    then show ?thesis using assms(3) by simp
  qed
  then have u: "unat (right s - left s + 1) = ?n + 1"
    by (simp add: unat_word_ariths)
  have e: "right s + 1 - left s = right s - left s + 1" by simp
  have n: "unat (right s + 1 - left s) = Suc ?n" unfolding e using u by simp
  have lt: "?n < 2 ^ Suc k" using assms(3) by simp
  have "ring ((queue s)((left s + of_nat ?n) mod 2 ^ Suc k := p)) (2 ^ Suc k) (left s) (Suc ?n)
          = ring (queue s) (2 ^ Suc k) (left s) ?n @ [p]"
    using assms(2) lt by (intro ring_snoc) simp_all
  then show ?thesis
    using n array_size_pow2 [OF assms(1)] by (simp add: free_slots_ring)
qed


section \<open>The two halves of update\_weak\<close>

lemma update_weak_split:
  "update_weak fn c x s =
     (case allocate c s of
        Inl s1 \<Rightarrow> (Returns False, x, s1)
      | Inr (data_new, data_old, ticket, s3) \<Rightarrow>
          publish c data_new data_old ticket (fn data_new x s3))"
  by (simp add: update_weak_def allocate_def publish_def Let_def
      split: prod.splits bool.splits result.splits)

lemma cas_permitted_eq:
  "cas_permitted s = (cas_script s = [] \<or> hd (cas_script s), s\<lparr>cas_script := tl (cas_script s)\<rparr>)"
  by (cases "cas_script s") (simp_all add: cas_permitted_def)

lemma counter_index_upd [simp]:
  "counter_index (s\<lparr>queue := q\<rparr>) = counter_index s"
  "counter_index (s\<lparr>left := l\<rparr>) = counter_index s"
  "counter_index (s\<lparr>right := r\<rparr>) = counter_index s"
  "counter_index (s\<lparr>counters := cs\<rparr>) = counter_index s"
  "counter_index (s\<lparr>cells := ce\<rparr>) = counter_index s"
  "counter_index (s\<lparr>heap := h\<rparr>) = counter_index s"
  "counter_index (s\<lparr>brk := b\<rparr>) = counter_index s"
  "counter_index (s\<lparr>cas_script := sc\<rparr>) = counter_index s"
  by (simp_all add: counter_index_def array_size_def fun_eq_iff)

lemma array_size_upd [simp]:
  "array_size (s\<lparr>queue := q\<rparr>) = array_size s"
  "array_size (s\<lparr>left := l\<rparr>) = array_size s"
  "array_size (s\<lparr>right := r\<rparr>) = array_size s"
  "array_size (s\<lparr>counters := cs\<rparr>) = array_size s"
  "array_size (s\<lparr>cells := ce\<rparr>) = array_size s"
  "array_size (s\<lparr>heap := h\<rparr>) = array_size s"
  "array_size (s\<lparr>brk := b\<rparr>) = array_size s"
  "array_size (s\<lparr>cas_script := sc\<rparr>) = array_size s"
  by (simp_all add: array_size_def)

lemma free_slots_upd [simp]:
  "free_slots (s\<lparr>counters := cs\<rparr>) = free_slots s"
  "free_slots (s\<lparr>cells := ce\<rparr>) = free_slots s"
  "free_slots (s\<lparr>heap := h\<rparr>) = free_slots s"
  "free_slots (s\<lparr>brk := b\<rparr>) = free_slots s"
  "free_slots (s\<lparr>cas_script := sc\<rparr>) = free_slots s"
  by (simp_all add: free_slots_def)

lemma allocate_Inl:
  assumes "allocate c s = Inl s1"
  shows "s1 = s \<or> (cas_script s \<noteq> [] \<and> s1 = s\<lparr>cas_script := tl (cas_script s)\<rparr>)"
  using assms
  by (cases "cas_script s")
     (auto simp: allocate_def left_compare_exchange_weak_def cas_permitted_def Let_def
        counter_guard_def split: if_splits prod.splits)

lemma allocate_Inr:
  assumes "allocate c s = Inr (data_new, data_old, ticket, s3)"
  shows "left s \<noteq> right s" "check_barrier s (left s) (right s)"
    "cas_script s = [] \<or> hd (cas_script s)"
    "data_new = queue s (left s mod array_size s)" "data_old = cells s ! c" "ticket = right s"
    "s3 = s\<lparr>cas_script := tl (cas_script s), left := left s + 1,
            counters := (counters s)(counter_index s (right s) :=
               counters s (counter_index s (right s)) + 1),
            heap := (heap s)(data_new := heap s data_old)\<rparr>"
  using assms
  by (auto simp: allocate_def left_compare_exchange_weak_def cas_permitted_eq Let_def
        counter_guard_def inc_def split: if_splits prod.splits)

lemma publish_cases:
  assumes "publish c data_new data_old ticket (r, x4, s4) = (r', x', s')"
  obtains
    (published) "r = Returns True" "r' = Returns True" "x' = x4" "cells s4 ! c = data_old"
      "cas_script s4 = [] \<or> hd (cas_script s4)"
      "s' = s4\<lparr>cas_script := tl (cas_script s4), cells := (cells s4)[c := data_new],
               queue := (queue s4)(right s4 mod array_size s4 := data_old),
               right := right s4 + 1,
               counters := (counters s4)(counter_index s4 ticket :=
                  counters s4 (counter_index s4 ticket) - 1)\<rparr>"
  | (lost) "r = Returns True" "r' = Returns False" "x' = x4"
      "(cas_script s4 \<noteq> [] \<and> \<not> hd (cas_script s4)) \<or> cells s4 ! c \<noteq> data_old"
      "s' = s4\<lparr>cas_script := tl (cas_script s4),
               queue := (queue s4)(right s4 mod array_size s4 := data_new),
               right := right s4 + 1,
               counters := (counters s4)(counter_index s4 ticket :=
                  counters s4 (counter_index s4 ticket) - 1)\<rparr>"
  | (refused) "r \<noteq> Returns True" "r' = r" "x' = x4"
      "s' = s4\<lparr>queue := (queue s4)(right s4 mod array_size s4 := data_new),
               right := right s4 + 1,
               counters := (counters s4)(counter_index s4 ticket :=
                  counters s4 (counter_index s4 ticket) - 1)\<rparr>"
proof (cases r)
  case Throws
  with assms show ?thesis
    by (intro refused)
       (auto simp: publish_def deallocate_guard_exit_def counter_guard_exit_def dec_def)
next
  case (Returns b)
  show ?thesis
  proof (cases b)
    case False
    with Returns assms show ?thesis
      by (intro refused)
         (auto simp: publish_def deallocate_guard_exit_def counter_guard_exit_def dec_def)
  next
    case True
    show ?thesis
    proof (cases "fst (data_compare_exchange_weak c data_old data_new s4)")
      case ok: True
      with True Returns assms show ?thesis
        by (intro published)
           (auto simp: publish_def deallocate_guard_exit_def counter_guard_exit_def dec_def
              data_compare_exchange_weak_def cas_permitted_eq Let_def
              split: prod.splits if_splits)
    next
      case ko: False
      with True Returns assms show ?thesis
        by (intro lost)
           (auto simp: publish_def deallocate_guard_exit_def counter_guard_exit_def dec_def
              data_compare_exchange_weak_def cas_permitted_eq Let_def
              split: prod.splits if_splits)
    qed
  qed
qed


lemma unat_take:
  fixes l r :: uint
  assumes "l \<noteq> r"
  shows "unat (r - (l + 1)) = unat (r - l) - 1" "0 < unat (r - l)"
proof -
  have nz: "r - l \<noteq> 0" using assms by simp
  have e: "r - (l + 1) = r - l - 1" by simp
  show "unat (r - (l + 1)) = unat (r - l) - 1"
    unfolding e using nz by (rule unat_minus_one)
  show "0 < unat (r - l)" using nz by (simp add: unat_gt_0)
qed

lemma queue_inv_allocate:
  assumes inv: "queue_inv held s"
    and al: "allocate c s = Inr (data_new, data_old, ticket, s3)"
  shows "queue_inv (data_new # held) s3"
    and "free_slots s = data_new # free_slots s3"
proof -
  note a = allocate_Inr [OF al]
  have fs: "free_slots s = data_new # free_slots s3"
    using free_slots_take [OF a(1)] a(4)
    by (simp add: a(7) free_slots_ring)
  show "free_slots s = data_new # free_slots s3" by (rule fs)
  have "unat (right s3 - left s3) + length (data_new # held) = unat (queue_size s3)"
    using inv unat_take [OF a(1)] by (simp add: a(7) queue_inv_def)
  moreover have "distinct ((data_new # held) @ free_slots s3 @ cells s3)"
    using inv fs by (auto simp: a(7) queue_inv_def)
  moreover have "\<forall>p \<in> set ((data_new # held) @ free_slots s3 @ cells s3). p < brk s3"
    using inv fs by (auto simp: a(7) queue_inv_def)
  moreover have "valid_queue_size (queue_size s3)"
    using inv by (simp add: a(7) queue_inv_def)
  ultimately show "queue_inv (data_new # held) s3"
    unfolding queue_inv_def by blast
qed

lemma free_slots_release:
  assumes inv: "queue_inv (p # held) s"
  shows "free_slots (s\<lparr>queue := (queue s)(right s mod array_size s := q), right := right s + 1\<rparr>)
           = free_slots s @ [q]"
proof -
  from inv have "valid_queue_size (queue_size s)" by (simp add: queue_inv_def)
  then obtain k where k: "k < 31" "queue_size s = 2 ^ k" "unat (queue_size s) = 2 ^ k"
    by (rule valid_queue_sizeD)
  have lt: "unat (right s - left s) < 2 ^ k"
    using inv k by (simp add: queue_inv_def)
  show ?thesis
    using free_slots_put [OF k(2) k(1) lt, of q] by (simp add: free_slots_ring)
qed

lemma unat_release:
  assumes inv: "queue_inv (p # held) s"
  shows "unat (right s + 1 - left s) = Suc (unat (right s - left s))"
proof -
  from inv have "valid_queue_size (queue_size s)" by (simp add: queue_inv_def)
  then obtain k where k: "k < 31" "queue_size s = 2 ^ k" "unat (queue_size s) = 2 ^ k"
    by (rule valid_queue_sizeD)
  have "(2::nat) ^ k < 2 ^ 31" using k(1) by (intro power_strict_increasing) simp_all
  moreover have "unat (right s - left s) < 2 ^ k"
    using inv k by (simp add: queue_inv_def)
  ultimately have "unat (right s - left s) + 1 < 2 ^ 32" by simp
  then have u: "unat (right s - left s + 1) = unat (right s - left s) + 1"
    by (simp add: unat_word_ariths)
  have e: "right s + 1 - left s = right s - left s + 1" by simp
  show ?thesis unfolding e using u by simp
qed

text \<open>Returning the held slot \<open>p\<close>, the state otherwise as it is.\<close>

lemma queue_inv_release:
  assumes inv: "queue_inv (p # held) s"
  shows "queue_inv held
           (s\<lparr>queue := (queue s)(right s mod array_size s := p), right := right s + 1\<rparr>)"
    (is "queue_inv held ?s'")
proof -
  have f: "free_slots ?s' = free_slots s @ [p]" by (rule free_slots_release [OF inv])
  have u: "unat (right ?s' - left ?s') = Suc (unat (right s - left s))"
    using unat_release [OF inv] by simp
  have "distinct (held @ free_slots ?s' @ cells ?s')"
    unfolding f using inv by (auto simp: queue_inv_def)
  moreover have "\<forall>a \<in> set (held @ free_slots ?s' @ cells ?s'). a < brk ?s'"
    unfolding f using inv by (auto simp: queue_inv_def)
  moreover have "unat (right ?s' - left ?s') + length held = unat (queue_size ?s')"
    unfolding u using inv by (simp add: queue_inv_def)
  moreover have "valid_queue_size (queue_size ?s')" using inv by (simp add: queue_inv_def)
  ultimately show ?thesis unfolding queue_inv_def by blast
qed

text \<open>Publishing the held slot \<open>p\<close> as the value of \<open>c\<close> and returning the old value.\<close>

lemma queue_inv_swap:
  assumes inv: "queue_inv (p # held) s" and c: "c < length (cells s)"
  shows "queue_inv held
           (s\<lparr>cells := (cells s)[c := p],
              queue := (queue s)(right s mod array_size s := cells s ! c), right := right s + 1\<rparr>)"
    (is "queue_inv held ?s'")
proof -
  let ?o = "cells s ! c"
  have d: "distinct (cells s)" and pn: "p \<notin> set (cells s)"
    using inv by (auto simp: queue_inv_def)
  have st: "set ((cells s)[c := p]) = insert p (set (cells s) - {?o})"
    using d c by (rule set_update_distinct)
  have dc: "distinct ((cells s)[c := p])"
    using d pn by (simp add: distinct_list_update)
  have mem: "?o \<in> set (cells s)" using c by simp
  have "free_slots ?s' = free_slots (s\<lparr>queue := (queue s)(right s mod array_size s := ?o),
      right := right s + 1\<rparr>)"
    by (simp add: free_slots_def)
  then have f: "free_slots ?s' = free_slots s @ [?o]"
    using free_slots_release [OF inv, of ?o] by simp
  have u: "unat (right ?s' - left ?s') = Suc (unat (right s - left s))"
    using unat_release [OF inv] by simp
  have ce: "cells ?s' = (cells s)[c := p]" by simp
  have base: "distinct held" "distinct (free_slots s)" "p \<notin> set held" "p \<notin> set (free_slots s)"
    "set held \<inter> set (free_slots s) = {}" "set held \<inter> set (cells s) = {}"
    "set (free_slots s) \<inter> set (cells s) = {}"
    using inv by (auto simp: queue_inv_def)
  have "distinct (held @ free_slots ?s' @ cells ?s')"
    unfolding f ce using base dc st mem pn by auto
  moreover have "\<forall>a \<in> set (held @ free_slots ?s' @ cells ?s'). a < brk ?s'"
    unfolding f ce using inv st mem pn by (auto simp: queue_inv_def)
  moreover have "unat (right ?s' - left ?s') + length held = unat (queue_size ?s')"
    unfolding u using inv by (simp add: queue_inv_def)
  moreover have "valid_queue_size (queue_size ?s')" using inv by (simp add: queue_inv_def)
  ultimately show ?thesis unfolding queue_inv_def by blast
qed

lemma queue_inv_frame:
  assumes "queue_inv held s"
  shows "queue_inv held (s\<lparr>cas_script := sc\<rparr>)" "queue_inv held (s\<lparr>counters := cs\<rparr>)"
    "queue_inv held (s\<lparr>heap := h\<rparr>)"
  using assms by (simp_all add: queue_inv_def)

lemma queue_inv_publish:
  assumes inv: "queue_inv (data_new # held) s4" and c: "c < length (cells s4)"
    and p: "publish c data_new data_old ticket (r, x4, s4) = (r', x', s')"
  shows "queue_inv held s'"
  using p
proof (cases rule: publish_cases)
  case published
  have "queue_inv held (s4\<lparr>cells := (cells s4)[c := data_new],
              queue := (queue s4)(right s4 mod array_size s4 := cells s4 ! c), right := right s4 + 1\<rparr>)"
    using inv c by (rule queue_inv_swap)
  then show ?thesis
    using published(4) by (simp add: published(6) queue_inv_def free_slots_def)
next
  case lost
  show ?thesis
    using queue_inv_release [OF inv] by (simp add: lost(5) queue_inv_def free_slots_def)
next
  case refused
  show ?thesis
    using queue_inv_release [OF inv] by (simp add: refused(4) queue_inv_def free_slots_def)
qed

section \<open>Functors that work on their object only\<close>

lemma on_object_lifted: "on_object f = lifted (\<lambda>a x. (fst (f a), x, snd (f a)))"
  by (simp add: fun_eq_iff on_object_def lifted_def split: prod.splits)

lemma lock_fn_lifted:
  "lock_fn = lifted (\<lambda>n x. if locked n then (Returns False, x, n)
                           else (Returns True, next n, n\<lparr>locked := True\<rparr>))"
  by (simp add: fun_eq_iff lock_fn_def lifted_def Let_def)

lemma values_nth: "c < length (cells s) \<Longrightarrow> values s ! c = current s c"
  by (simp add: values_def current_def)

lemma length_values [simp]: "length (values s) = length (cells s)"
  by (simp add: values_def)

text \<open>What a call does to the values when the functor only works on its object.\<close>

lemma update_weak_lifted:
  assumes inv: "queue_inv held s" and c: "c < length (cells s)"
    and uw: "update_weak (lifted g) c x s = (r', x', s')"
  shows "queue_inv held s'"
    and "cells s' = cells s \<or> r' = Returns True"
    and "length (cells s') = length (cells s)"
    and "counters s' = counters s" and "queue_size s' = queue_size s" and "brk s' = brk s"
    and "length (cas_script s') \<le> length (cas_script s)"
    and "\<forall>p \<in> set held. heap s' p = heap s p"
    and "r' = Returns True \<Longrightarrow>
           g (current s c) x = (Returns True, x', current s' c)
           \<and> values s' = (values s)[c := current s' c]"
    and "r' \<noteq> Returns True \<Longrightarrow> values s' = values s"
    and "r' = Throws \<Longrightarrow> fst (g (current s c) x) = Throws"
    and "fst (g (current s c) x) = Throws \<Longrightarrow> left s' \<noteq> left s \<Longrightarrow> r' = Throws"
    and "r' \<noteq> Returns True \<Longrightarrow>
           (left s' = left s \<and> right s' = right s \<and> queue s' = queue s)
           \<or> (left s' = left s + 1 \<and> right s' = right s + 1
               \<and> queue s' = (queue s)(right s mod array_size s := queue s (left s mod array_size s)))"
proof -
  let ?goal = "queue_inv held s'
    \<and> (cells s' = cells s \<or> r' = Returns True)
    \<and> length (cells s') = length (cells s)
    \<and> counters s' = counters s \<and> queue_size s' = queue_size s \<and> brk s' = brk s
    \<and> length (cas_script s') \<le> length (cas_script s)
    \<and> (\<forall>p \<in> set held. heap s' p = heap s p)
    \<and> (r' = Returns True \<longrightarrow>
           g (current s c) x = (Returns True, x', current s' c)
           \<and> values s' = (values s)[c := current s' c])
    \<and> (r' \<noteq> Returns True \<longrightarrow> values s' = values s)
    \<and> (r' = Throws \<longrightarrow> fst (g (current s c) x) = Throws)
    \<and> (fst (g (current s c) x) = Throws \<longrightarrow> left s' \<noteq> left s \<longrightarrow> r' = Throws)
    \<and> (r' \<noteq> Returns True \<longrightarrow>
           (left s' = left s \<and> right s' = right s \<and> queue s' = queue s)
           \<or> (left s' = left s + 1 \<and> right s' = right s + 1
               \<and> queue s' = (queue s)(right s mod array_size s := queue s (left s mod array_size s))))"
  have ?goal
  proof (cases "allocate c s")
    case (Inl s1)
    with uw have e: "r' = Returns False" "x' = x" "s' = s1"
      by (simp_all add: update_weak_split)
    from allocate_Inl [OF Inl] show ?thesis
      using inv by (auto simp: e queue_inv_frame values_def)
  next
    case (Inr y)
    then obtain data_new data_old ticket s3 where
      al: "allocate c s = Inr (data_new, data_old, ticket, s3)"
      by (cases y) auto
    note a = allocate_Inr [OF al]
    have inv3: "queue_inv (data_new # held) s3" and fs: "free_slots s = data_new # free_slots s3"
      using queue_inv_allocate [OF inv al] by simp_all
    have nin: "data_new \<notin> set (cells s)" "data_new \<notin> set held"
      using inv fs by (auto simp: queue_inv_def)
    obtain r x1 v where g: "g (current s c) x = (r, x1, v)"
      by (cases "g (current s c) x") auto
    have h3: "heap s3 data_new = current s c"
      by (simp add: a(7) a(5) current_def)
    let ?s4 = "s3\<lparr>heap := (heap s3)(data_new := v)\<rparr>"
    have l: "lifted g data_new x s3 = (r, x1, ?s4)"
      using g h3 by (simp add: lifted_def)
    have inv4: "queue_inv (data_new # held) ?s4"
      using inv3 by (rule queue_inv_frame)
    have c4: "c < length (cells ?s4)" using c by (simp add: a(7))
    have p: "publish c data_new data_old ticket (r, x1, ?s4) = (r', x', s')"
      using uw al l by (simp add: update_weak_split)
    have inv': "queue_inv held s'" using inv4 c4 p by (rule queue_inv_publish)
    have vals: "map ((heap s)(data_new := w)) (cells s) = map (heap s) (cells s)" for w
      using nin(1) by (induction "cells s") auto
    from p show ?thesis
    proof (cases rule: publish_cases)
      case published
      then show ?thesis
        using inv' g nin vals c
        by (auto simp: a(7) a(5) a(6) values_def current_def map_update)
    next
      case lost
      then show ?thesis
        using inv' g nin vals c a(4)
        by (auto simp: a(7) a(5) a(6) values_def current_def)
    next
      case refused
      then show ?thesis
        using inv' g nin vals c a(4)
        by (auto simp: a(7) a(5) a(6) values_def current_def)
    qed
  qed
  then show "queue_inv held s'"
    and "cells s' = cells s \<or> r' = Returns True"
    and "length (cells s') = length (cells s)"
    and "counters s' = counters s" and "queue_size s' = queue_size s" and "brk s' = brk s"
    and "length (cas_script s') \<le> length (cas_script s)"
    and "\<forall>p \<in> set held. heap s' p = heap s p"
    and "r' = Returns True \<Longrightarrow>
           g (current s c) x = (Returns True, x', current s' c)
           \<and> values s' = (values s)[c := current s' c]"
    and "r' \<noteq> Returns True \<Longrightarrow> values s' = values s"
    and "r' = Throws \<Longrightarrow> fst (g (current s c) x) = Throws"
    and "fst (g (current s c) x) = Throws \<Longrightarrow> left s' \<noteq> left s \<Longrightarrow> r' = Throws"
    and "r' \<noteq> Returns True \<Longrightarrow>
           (left s' = left s \<and> right s' = right s \<and> queue s' = queue s)
           \<or> (left s' = left s + 1 \<and> right s' = right s + 1
               \<and> queue s' = (queue s)(right s mod array_size s := queue s (left s mod array_size s)))"
    by blast+
qed

section \<open>The states the constructors make\<close>

lemma of_nat_neq:
  fixes i n :: nat
  assumes "i < n" "n < 2 ^ 32"
  shows "(of_nat i :: uint) \<noteq> of_nat n"
proof
  assume "(of_nat i :: uint) = of_nat n"
  then have "unat (of_nat i :: uint) = unat (of_nat n :: uint)" by (rule unat_cong)
  moreover have "unat (of_nat n :: uint) = n" using assms(2) by (simp add: unat_of_nat)
  moreover have "i < 2 ^ 32" using assms by simp
  then have "unat (of_nat i :: uint) = i" by (simp add: unat_of_nat)
  ultimately show False using assms(1) by simp
qed

text \<open>The loop of \<^verbatim>\<open>init_static\<close> after \<open>n\<close> rounds.\<close>

lemma init_loop:
  assumes "n < 2 ^ 32"
  shows "\<exists>h q. fold (\<lambda>i s. let (p, s1) = new_object dflt s
                         in s1\<lparr>queue := (queue s1)(of_nat i := p)\<rparr>)
               [0..<n] (static_zero N0 dflt)
           = \<lparr>queue_size = N0, queue = q, left = 0, right = 0, counters = (\<lambda>_. 0),
              cells = [], heap = h, brk = Suc n, cas_script = []\<rparr>
         \<and> (\<forall>i < n. q (of_nat i) = Suc i)"
  using assms
proof (induction n)
  case 0
  show ?case by (simp add: static_zero_def)
next
  case (Suc n)
  from Suc.prems have "n < 2 ^ 32" by simp
  from Suc.IH [OF this] obtain h q where
    f: "fold (\<lambda>i s. let (p, s1) = new_object dflt s
                         in s1\<lparr>queue := (queue s1)(of_nat i := p)\<rparr>)
               [0..<n] (static_zero N0 dflt)
           = \<lparr>queue_size = N0, queue = q, left = 0, right = 0, counters = (\<lambda>_. 0),
              cells = [], heap = h, brk = Suc n, cas_script = []\<rparr>"
    and q: "\<forall>i < n. q (of_nat i) = Suc i"
    by blast
  have q': "\<forall>i < Suc n. (q(of_nat n := Suc n)) (of_nat i) = Suc i"
    using q of_nat_neq [OF _ \<open>n < 2 ^ 32\<close>] by (auto simp: less_Suc_eq)
  have step: "fold F [0..<Suc n] z = F n (fold F [0..<n] z)" for F :: "nat \<Rightarrow> 'b \<Rightarrow> 'b" and z
    by simp
  have "fold (\<lambda>i s. let (p, s1) = new_object dflt s
                         in s1\<lparr>queue := (queue s1)(of_nat i := p)\<rparr>)
               [0..<Suc n] (static_zero N0 dflt)
           = \<lparr>queue_size = N0, queue = q(of_nat n := Suc n), left = 0, right = 0,
              counters = (\<lambda>_. 0), cells = [], heap = h(Suc n := dflt), brk = Suc (Suc n),
              cas_script = []\<rparr>"
    unfolding step f by (simp add: new_object_def)
  with q' show ?case by blast
qed

lemma ring_init:
  assumes "k < 31" and q: "\<forall>i < 2 ^ k. q (of_nat i) = Suc i"
  shows "ring q (2 ^ Suc k) 0 (2 ^ k) = map Suc [0..<2 ^ k]"
proof -
  have "(of_nat i :: uint) mod 2 ^ Suc k = of_nat i" if "i < 2 ^ k" for i
  proof -
    have "unat ((0 + of_nat i :: uint) mod 2 ^ Suc k) = (unat (0 :: uint) + i) mod 2 ^ Suc k"
      using assms(1) by (intro unat_ring_index) simp
    also have "\<dots> = i" using that by simp
    finally have "unat ((of_nat i :: uint) mod 2 ^ Suc k) = i" by simp
    moreover have "i < 2 ^ 32"
    proof -
      have "(2::nat) ^ k < 2 ^ 32" using assms(1) by (intro power_strict_increasing) simp_all
      with that show ?thesis by simp
    qed
    then have "unat (of_nat i :: uint) = i" by (simp add: unat_of_nat)
    ultimately show ?thesis by (simp add: word_unat_eq_iff)
  qed
  then show ?thesis using q by (simp add: ring_def)
qed

lemma quiescent_init_static:
  assumes "valid_queue_size N0"
  shows "quiescent (init_static N0 dflt)" and "cells (init_static N0 dflt) = []"
proof -
  from assms obtain k where k: "k < 31" "N0 = 2 ^ k" "unat N0 = 2 ^ k"
    by (rule valid_queue_sizeD)
  have "(2::nat) ^ k < 2 ^ 32" using k(1) by (intro power_strict_increasing) simp_all
  from init_loop [OF this, of dflt N0] obtain h q where
    f: "fold (\<lambda>i s. let (p, s1) = new_object dflt s
                         in s1\<lparr>queue := (queue s1)(of_nat i := p)\<rparr>)
               [0..<2 ^ k] (static_zero N0 dflt)
           = \<lparr>queue_size = N0, queue = q, left = 0, right = 0, counters = (\<lambda>_. 0),
              cells = [], heap = h, brk = Suc (2 ^ k), cas_script = []\<rparr>"
    and q: "\<forall>i < 2 ^ k. q (of_nat i) = Suc i"
    by blast
  have i: "init_static N0 dflt
      = \<lparr>queue_size = N0, queue = q, left = 0, right = N0, counters = (\<lambda>_. 0),
              cells = [], heap = h, brk = Suc (2 ^ k), cas_script = []\<rparr>"
    by (simp only: init_static_def k(3) f) simp
  have fr: "free_slots (init_static N0 dflt) = map Suc [0..<2 ^ k]"
    using ring_init [OF k(1) q] k(3) unfolding free_slots_ring i array_size_def
    by (simp add: k(2))
  show "cells (init_static N0 dflt) = []" by (simp add: i)
  have "queue_inv [] (init_static N0 dflt)"
    unfolding queue_inv_def fr using assms by (auto simp: i k(3) distinct_map)
  then show "quiescent (init_static N0 dflt)" by (simp add: quiescent_def i)
qed

text \<open>A new instance for a new object.\<close>

lemma quiescent_new_instance:
  assumes q: "quiescent s"
    and n: "new_object v s = (object, s1)" and a: "atomic_data object s1 = (c, s2)"
  shows "quiescent s2" and "values s2 = values s @ [v]" and "c = length (cells s)"
proof -
  from q have inv: "queue_inv [] s" and z: "counters s 0 = 0" "counters s 1 = 0"
    by (simp_all add: quiescent_def)
  have e: "object = brk s" "c = length (cells s)"
    "s2 = s\<lparr>heap := (heap s)(brk s := v), brk := Suc (brk s), cells := cells s @ [brk s]\<rparr>"
    using n a by (auto simp: new_object_def atomic_data_def)
  have lt: "\<forall>p \<in> set (cells s). p < brk s" "\<forall>p \<in> set (free_slots s). p < brk s"
    using inv by (auto simp: queue_inv_def)
  have m: "map ((heap s)(brk s := v)) (cells s) = map (heap s) (cells s)"
    using lt(1) by (induction "cells s") auto
  show "values s2 = values s @ [v]" by (simp add: e values_def m)
  show "c = length (cells s)" by (rule e)
  have "queue_inv [] s2"
    using inv lt by (fastforce simp: e queue_inv_def less_Suc_eq)
  then show "quiescent s2" using z by (simp add: quiescent_def e)
qed

text \<open>
  So the invariants hold at the start: for a cell of \<^verbatim>\<open>atomic_data<unsigned, N0>\<close>
  and for a new list.
\<close>

lemma quiescent_cell_u32:
  assumes "valid_queue_size N0"
  shows "quiescent (snd (cell_u32 N0 v))" and "values (snd (cell_u32 N0 v)) = [v]"
proof -
  obtain object s1 where n: "new_object v (init_static N0 0) = (object, s1)"
    by (cases "new_object v (init_static N0 (0::uint))")
  obtain c s2 where a: "atomic_data object s1 = (c, s2)" by (cases "atomic_data object s1")
  have s: "snd (cell_u32 N0 v) = s2" by (simp add: cell_u32_def n a)
  note i = quiescent_init_static [OF assms, of 0]
  note w = quiescent_new_instance [OF i(1) n a]
  show "quiescent (snd (cell_u32 N0 v))" using w(1) by (simp add: s)
  show "values (snd (cell_u32 N0 v)) = [v]" using w(2) i(2) by (simp add: s values_def)
qed

lemma list_inv_atomic_list:
  assumes "valid_queue_size N0" and "atomic_list d (init_static N0 dflt) = (list, s)"
  shows "list_inv s" and "deleted_locked s" and "list < length (cells s)"
    and "next (current s list) = None"
proof -
  let ?b = "\<lparr>locked = False, deleted = False, data = d, next = None\<rparr>"
  obtain object s1 where n: "new_object ?b (init_static N0 dflt) = (object, s1)"
    by (cases "new_object ?b (init_static N0 dflt)")
  have a: "atomic_data object s1 = (list, s)" using assms(2) by (simp add: atomic_list_def n)
  note i = quiescent_init_static [OF assms(1), of dflt]
  note w = quiescent_new_instance [OF i(1) n a]
  have v: "values s = [?b]" using w(2) i(2) by (simp add: values_def)
  have l: "length (cells s) = 1" using v by (metis length_values length_Cons list.size(3) One_nat_def)
  show "list_inv s" using w(1) by (simp add: list_inv_def links_valid_def links_ok_def v)
  show "deleted_locked s" by (simp add: deleted_locked_def locked_if_deleted_def v)
  show "list < length (cells s)" using w(3) i(2) l by simp
  then have "current s list = [?b] ! list" using values_nth [of list s] v by simp
  then show "next (current s list) = None" using \<open>list < length (cells s)\<close> l by simp
qed

section \<open>The claims about the cell\<close>

lemma check_barrier_iff:
  "check_barrier s L R \<longleftrightarrow>
     (L mod queue_size s = 0 \<longrightarrow> queue_size s \<le> R - L \<and> counters s (1 - counter_index s R) = 0)"
  by (auto simp: check_barrier_def is_used_def Let_def word_greater_zero_iff not_less)

text \<open>
  C4. \<^verbatim>\<open>check_barrier\<close> passes exactly when the snapshot of \<^verbatim>\<open>left\<close> is no multiple of
  \<^verbatim>\<open>queue_size\<close>, or \<^verbatim>\<open>right - left\<close> is at least \<^verbatim>\<open>queue_size\<close> and the counter of the
  other phase reads zero. When it does not pass, \<^verbatim>\<open>update_weak\<close> returns false and changes
  nothing; away from a multiple of \<^verbatim>\<open>queue_size\<close> a non-empty queue always gets as far
  as taking the slot.
\<close>

theorem barrier_check:
  "(check_barrier s L R \<longleftrightarrow>
      (L mod queue_size s = 0 \<longrightarrow>
         queue_size s \<le> R - L \<and> counters s (1 - counter_index s R) = 0))
   \<and> (\<not> check_barrier s (left s) (right s) \<longrightarrow> update_weak fn c x s = (Returns False, x, s))
   \<and> (left s mod queue_size s \<noteq> 0 \<longrightarrow> left s \<noteq> right s \<longrightarrow> cas_script s = [] \<longrightarrow>
        (\<exists>y. allocate c s = Inr y))"
  by (auto simp: check_barrier_iff update_weak_def allocate_def Let_def
      left_compare_exchange_weak_def cas_permitted_def counter_guard_def)


theorem barrier_check_witness:
  "left at_barrier mod queue_size at_barrier = 0
   \<and> \<not> (queue_size at_barrier \<le> right at_barrier - left at_barrier
        \<and> counters at_barrier (1 - counter_index at_barrier (right at_barrier)) = 0)
   \<and> \<not> check_barrier at_barrier (left at_barrier) (right at_barrier)
   \<and> update_weak (on_object increment) 0 () at_barrier = (Returns False, (), at_barrier)"
proof -
  have a: "left at_barrier mod queue_size at_barrier = 0" by code_simp
  have b: "counters at_barrier (1 - counter_index at_barrier (right at_barrier)) \<noteq> 0"
    by code_simp
  show ?thesis
    using barrier_check [of at_barrier "left at_barrier" "right at_barrier" "on_object increment" 0 "()"]
      a b by simp
qed





section \<open>Running the model on an example\<close>

lemmas run_defs = update_weak_def check_barrier_def is_used_def counter_index_def array_size_def
  left_compare_exchange_weak_def cas_permitted_def counter_guard_def inc_def dec_def
  new_object_def atomic_data_def data_compare_exchange_weak_def deallocate_guard_exit_def
  counter_guard_exit_def values_def current_def Let_def on_object_def read_def observe_def

lemmas list_defs = erase_attempt_def erase_fn_def lock_fn_def insert_fn_def
  insert_after_weak_def push_front_def unlock_def mark_deleted_def set_data_def
  iterator_update_weak_def is_deleted_def is_locked_def empty_def

lemmas run_congs = prod.case_cong_weak result.case_cong_weak bool.case_cong_weak
  list.case_cong_weak option.case_cong_weak sum.case_cong_weak let_weak_cong if_weak_cong

section \<open>The claims about the list's iterators and pop\_front\<close>

lemma counters_restore [simp]:
  "s\<lparr>counters := (counters s)(i := counters s i)\<rparr> = s"
  by simp

lemma read_observe: "read (observe g) c s = (Returns (g (current s c)), s)"
  by (simp add: read_def observe_def counter_guard_def counter_guard_exit_def inc_def dec_def
      current_def Let_def)

lemma is_deleted_Some: "is_deleted (Some c) s = (Returns (deleted (current s c)), s)"
  by (simp add: is_deleted_def read_observe)

lemma empty_eq: "empty list s = (Returns (next (current s list) = None), s)"
  by (simp add: empty_def read_observe)

text \<open>
  C9. \<^verbatim>\<open>iterator::update\<close> on a node that is deleted returns false at once, and the state,
  the node's data with it, is what it was.
\<close>

theorem iterator_update_deleted:
  "deleted (current s c) \<Longrightarrow> iterator_update d c s = Some (Returns False, s)"
  by (subst iterator_update.simps) (simp add: is_deleted_Some)

theorem iterator_update_deleted_witness:
  "deleted (current after_erase 1) \<and> data (current after_erase 1) = 7
   \<and> iterator_update 9 1 after_erase = Some (Returns False, after_erase)"
proof -
  have d: "deleted (current after_erase 1)"
    by (simp add: after_erase_def two_nodes_def blank_def run_defs list_defs cong: run_congs)
  have v: "data (current after_erase 1) = 7"
    by (simp add: after_erase_def two_nodes_def blank_def run_defs list_defs cong: run_congs)
  from d v iterator_update_deleted [OF d, of 9] show ?thesis by (intro conjI)
qed

text \<open>
  C10. \<^verbatim>\<open>pop_front\<close> on a list whose head has no successor returns the empty iterator
  without entering the loop body, and the state is what it was.
\<close>

theorem pop_front_empty:
  "next (current s list) = None \<Longrightarrow> pop_front list s = Some (Returns None, s)"
  unfolding pop_front_def
  by (subst pop_front_loop.simps) (simp add: empty_eq)

theorem pop_front_empty_witness:
  "next (current empty_list 0) = None
   \<and> pop_front 0 empty_list = Some (Returns None, empty_list)"
proof -
  have e: "next (current empty_list 0) = None"
    by (simp add: empty_list_def blank_def current_def)
  show ?thesis using pop_front_empty [OF e] e by simp
qed

section \<open>Quiescent states and the strong update\<close>

text \<open>More about a call with a functor that works on its object only: the pointer changes.\<close>

lemma update_weak_lifted_cells:
  assumes inv: "queue_inv held s" and c: "c < length (cells s)"
    and uw: "update_weak (lifted g) c x s = (Returns True, x', s')"
  shows "cells s' = (cells s)[c := cells s' ! c]" and "cells s' ! c \<notin> set (cells s)"
proof -
  obtain data_new data_old ticket s3 where
    al: "allocate c s = Inr (data_new, data_old, ticket, s3)"
    using uw by (cases "allocate c s") (auto simp: update_weak_split)
  note a = allocate_Inr [OF al]
  have fs: "free_slots s = data_new # free_slots s3"
    using queue_inv_allocate [OF inv al] by simp
  have nin: "data_new \<notin> set (cells s)"
    using inv fs by (auto simp: queue_inv_def)
  obtain r x1 s4 where l: "lifted g data_new x s3 = (r, x1, s4)"
    by (cases "lifted g data_new x s3") auto
  then have s4: "cells s4 = cells s"
    by (auto simp: lifted_def a(7) split: prod.splits)
  have p: "publish c data_new data_old ticket (r, x1, s4) = (Returns True, x', s')"
    using uw al l by (simp add: update_weak_split)
  from p have ce: "cells s' = (cells s)[c := data_new]"
    by (cases rule: publish_cases) (simp_all add: s4)
  then have "cells s' ! c = data_new" using c by simp
  then show "cells s' = (cells s)[c := cells s' ! c]" and "cells s' ! c \<notin> set (cells s)"
    using ce nin by simp_all
qed

text \<open>In a quiescent state the queue is not empty and the barrier is open.\<close>

lemma quiescent_open:
  assumes "quiescent s"
  shows "left s \<noteq> right s" and "check_barrier s (left s) (right s)"
proof -
  from assms have inv: "queue_inv [] s" and z: "counters s 0 = 0" "counters s 1 = 0"
    by (simp_all add: quiescent_def)
  from inv have "valid_queue_size (queue_size s)" by (simp add: queue_inv_def)
  then obtain k where k: "k < 31" "queue_size s = 2 ^ k" "unat (queue_size s) = 2 ^ k"
    by (rule valid_queue_sizeD)
  have u: "unat (right s - left s) = unat (queue_size s)"
    using inv by (simp add: queue_inv_def)
  then have "unat (right s - left s) \<noteq> 0" using k by simp
  then show "left s \<noteq> right s" by auto
  have le: "queue_size s \<le> right s - left s"
    using u by (simp add: word_le_nat_alt)
  have "counter_index s (right s) = 0 \<or> counter_index s (right s) = 1"
    by (simp add: counter_index_def)
  then have "counters s (1 - counter_index s (right s)) = 0"
    using z by auto
  with le show "check_barrier s (left s) (right s)"
    by (simp add: check_barrier_iff)
qed

lemma allocate_quiescent:
  assumes "quiescent s" and "allocate c s = Inl s1"
  shows "cas_script s \<noteq> []" and "s1 = s\<lparr>cas_script := tl (cas_script s)\<rparr>"
  using assms(2) quiescent_open [OF assms(1)]
  by (auto simp: allocate_def left_compare_exchange_weak_def cas_permitted_eq Let_def
        counter_guard_def split: if_splits prod.splits)

text \<open>
  In a quiescent state a functor that always says yes fails only for a
  \<^verbatim>\<open>compare_exchange_weak\<close> the script refuses, and that uses the script up.
\<close>

lemma update_weak_progress:
  assumes q: "quiescent s" and c: "c < length (cells s)"
    and yes: "\<And>a. fst (f a) = Returns True"
    and uw: "update_weak (on_object f) c x s = (r', x', s')" and r': "r' \<noteq> Returns True"
  shows "length (cas_script s') < length (cas_script s)"
proof (cases "allocate c s")
  case (Inl s1)
  with uw have "s' = s1" by (simp add: update_weak_split)
  with allocate_quiescent [OF q Inl] show ?thesis by (cases "cas_script s") auto
next
  case (Inr y)
  then obtain data_new data_old ticket s3 where
    al: "allocate c s = Inr (data_new, data_old, ticket, s3)"
    by (cases y) auto
  note a = allocate_Inr [OF al]
  let ?s4 = "s3\<lparr>heap := (heap s3)(data_new := snd (f (heap s3 data_new)))\<rparr>"
  have o: "on_object f data_new x s3 = (Returns True, x, ?s4)"
    using yes [of "heap s3 data_new"] by (cases "f (heap s3 data_new)") (simp add: on_object_def)
  have p: "publish c data_new data_old ticket (Returns True, x, ?s4) = (r', x', s')"
    using uw al o by (simp add: update_weak_split)
  from p show ?thesis
  proof (cases rule: publish_cases)
    case published
    with r' show ?thesis by simp
  next
    case lost
    have "cells ?s4 ! c = data_old" by (simp add: a(7) a(5))
    with lost(4) have "cas_script ?s4 \<noteq> []" by simp
    then show ?thesis unfolding lost(5) by (cases "cas_script s") (auto simp: a(7))
  next
    case refused
    then show ?thesis by simp
  qed
qed


lemma update_weak_lifted_capture:
  assumes uw: "update_weak (lifted g) c x s = (r', x', s')"
  shows "x' = x \<or> x' = fst (snd (g (current s c) x))"
proof (cases "allocate c s")
  case (Inl s1)
  with uw show ?thesis by (simp add: update_weak_split)
next
  case (Inr y)
  then obtain data_new data_old ticket s3 where
    al: "allocate c s = Inr (data_new, data_old, ticket, s3)"
    by (cases y) auto
  note a = allocate_Inr [OF al]
  have h3: "heap s3 data_new = current s c"
    by (simp add: a(7) a(5) current_def)
  obtain r x1 v where g: "g (current s c) x = (r, x1, v)"
    by (cases "g (current s c) x") auto
  have p: "publish c data_new data_old ticket (r, x1, s3\<lparr>heap := (heap s3)(data_new := v)\<rparr>)
             = (r', x', s')"
    using uw al g h3 by (simp add: update_weak_split lifted_def)
  from p have "x' = x1" by (cases rule: publish_cases) simp_all
  with g show ?thesis by simp
qed

text \<open>
  The strong \<^verbatim>\<open>update\<close> in a quiescent state, with a functor that always says yes: it
  returns, and the instance has the functor's value of its old value.
\<close>

lemma update_quiescent:
  assumes yes: "\<And>a. fst (f a) = Returns True"
  shows "quiescent s \<Longrightarrow> c < length (cells s) \<Longrightarrow>
     \<exists>s'. update (on_object f) c x s = Some (Returns (), x, s')
          \<and> quiescent s' \<and> length (cells s') = length (cells s)
          \<and> values s' = (values s)[c := snd (f (current s c))]
          \<and> queue_size s' = queue_size s \<and> brk s' = brk s
          \<and> length (cas_script s') \<le> length (cas_script s)"
proof (induction "length (cas_script s)" arbitrary: s rule: less_induct)
  case less
  note q = less.prems(1) and c = less.prems(2)
  from q have inv: "queue_inv [] s" by (simp add: quiescent_def)
  obtain r' x' s1 where uw: "update_weak (on_object f) c x s = (r', x', s1)"
    by (cases "update_weak (on_object f) c x s") auto
  note l = update_weak_lifted [OF inv c uw [unfolded on_object_lifted]]
  have x': "x' = x"
    using update_weak_lifted_capture [OF uw [unfolded on_object_lifted]] by simp
  have q1: "quiescent s1" using q l(1) l(4) by (simp add: quiescent_def)
  show ?case
  proof (cases "r' = Returns True")
    case True
    have "update (on_object f) c x s = Some (Returns (), x, s1)"
      by (subst update.simps) (simp add: uw True x')
    moreover have "current s1 c = snd (f (current s c))"
      using l(9) [OF True] by simp
    ultimately show ?thesis
      using q1 l(3) l(5) l(6) l(7) l(9) [OF True] by auto
  next
    case False
    have nt: "r' \<noteq> Throws" using l(11) yes [of "current s c"] by auto
    with False have r': "r' = Returns False" by (cases r') auto
    have e: "update (on_object f) c x s = update (on_object f) c x s1"
      by (subst update.simps) (simp add: uw r' x')
    have lt: "length (cas_script s1) < length (cas_script s)"
      using q c yes uw False by (rule update_weak_progress)
    have c1: "c < length (cells s1)" using c l(3) by simp
    have v: "values s1 = values s" using l(10) [OF False] .
    then have "values s1 ! c = values s ! c" by simp
    then have cur: "current s1 c = current s c" using c c1 by (simp add: values_nth)
    from less.hyps [OF lt q1 c1] obtain s' where
      "update (on_object f) c x s1 = Some (Returns (), x, s')"
      "quiescent s'" "length (cells s') = length (cells s1)"
      "values s' = (values s1)[c := snd (f (current s1 c))]"
      "queue_size s' = queue_size s1" "brk s' = brk s1"
      "length (cas_script s') \<le> length (cas_script s1)"
      by blast
    then show ?thesis
      using e v cur l(3) l(5) l(6) lt by auto
  qed
qed

section \<open>Functors that call back into the cell\<close>

lemma counter_index_cong: "queue_size s' = queue_size s \<Longrightarrow> counter_index s' = counter_index s"
  by (simp add: counter_index_def array_size_def fun_eq_iff)

lemma values_heap_upd:
  "p \<notin> set (cells s) \<Longrightarrow> values (s\<lparr>heap := (heap s)(p := v)\<rparr>) = values s"
  by (induction "cells s") (auto simp: values_def)

lemma allocate_effect:
  assumes inv: "queue_inv held s"
    and al: "allocate c s = Inr (data_new, data_old, ticket, s3)"
  shows "queue_inv (data_new # held) s3"
    and "cells s3 = cells s" and "values s3 = values s"
    and "heap s3 = (heap s)(data_new := current s c)"
    and "data_old = cells s ! c"
    and "counters s3 = (counters s)(counter_index s ticket := counters s (counter_index s ticket) + 1)"
    and "queue_size s3 = queue_size s" and "brk s3 = brk s"
    and "length (cas_script s3) \<le> length (cas_script s)"
    and "data_new \<notin> set (cells s)" and "data_new \<notin> set held"
proof -
  note a = allocate_Inr [OF al]
  show i3: "queue_inv (data_new # held) s3" using queue_inv_allocate [OF inv al] by simp
  have fs: "free_slots s = data_new # free_slots s3"
    using queue_inv_allocate [OF inv al] by simp
  show nin: "data_new \<notin> set (cells s)" and "data_new \<notin> set held"
    using inv fs by (auto simp: queue_inv_def)
  show "cells s3 = cells s" "heap s3 = (heap s)(data_new := current s c)" "data_old = cells s ! c"
    "counters s3 = (counters s)(counter_index s ticket := counters s (counter_index s ticket) + 1)"
    "queue_size s3 = queue_size s" "brk s3 = brk s"
    "length (cas_script s3) \<le> length (cas_script s)"
    by (simp_all add: a(7) a(5) a(6) current_def)
  show "values s3 = values s"
    using values_heap_upd [OF nin, of "heap s data_old"] by (simp add: a(7) values_def)
qed

lemma publish_effect:
  assumes inv: "queue_inv (data_new # held) s4" and c: "c < length (cells s4)"
    and p: "publish c data_new data_old ticket (r, x4, s4) = (r', x', s')"
  shows "queue_inv held s'" and "x' = x4"
    and "queue_size s' = queue_size s4" and "brk s' = brk s4" and "heap s' = heap s4"
    and "length (cells s') = length (cells s4)"
    and "length (cas_script s') \<le> length (cas_script s4)"
    and "counters s' = (counters s4)(counter_index s4 ticket :=
            counters s4 (counter_index s4 ticket) - 1)"
    and "r' = Returns True \<Longrightarrow>
           r = Returns True \<and> cells s4 ! c = data_old
           \<and> cells s' = (cells s4)[c := data_new]
           \<and> values s' = (values s4)[c := heap s4 data_new]"
    and "r' \<noteq> Returns True \<Longrightarrow>
           cells s' = cells s4 \<and> values s' = values s4
           \<and> (r' = r \<or> (r = Returns True \<and> r' = Returns False))"
proof -
  show "queue_inv held s'" using inv c p by (rule queue_inv_publish)
  from p show "x' = x4"
    and "queue_size s' = queue_size s4" and "brk s' = brk s4" and "heap s' = heap s4"
    and "length (cells s') = length (cells s4)"
    and "length (cas_script s') \<le> length (cas_script s4)"
    and "counters s' = (counters s4)(counter_index s4 ticket :=
            counters s4 (counter_index s4 ticket) - 1)"
    by (cases rule: publish_cases; simp)+
  from p show "r' = Returns True \<Longrightarrow>
           r = Returns True \<and> cells s4 ! c = data_old
           \<and> cells s' = (cells s4)[c := data_new]
           \<and> values s' = (values s4)[c := heap s4 data_new]"
    by (cases rule: publish_cases) (simp_all add: values_def map_update)
  from p show "r' \<noteq> Returns True \<Longrightarrow>
           cells s' = cells s4 \<and> values s' = values s4
           \<and> (r' = r \<or> (r = Returns True \<and> r' = Returns False))"
    by (cases rule: publish_cases) (simp_all add: values_def)
qed


section \<open>What erase\_after\_weak does to the nodes\<close>

lemma not_held_cell:
  assumes "queue_inv (p # held) s"
  shows "p \<notin> set (cells s)"
  using assms by (auto simp: queue_inv_def)

text \<open>The outer functor, run on the copy \<open>n0\<close> of the node at \<open>pos\<close>.\<close>

lemma erase_fn_effect:
  assumes inv: "queue_inv [data_new] s3"
    and h: "heap s3 data_new = n0"
    and lk: "case next n0 of None \<Rightarrow> True | Some v \<Rightarrow> v < length (cells s3)"
    and ef: "erase_fn data_new x s3 = (r4, x4, s4)"
  shows "queue_inv [data_new] s4" and "counters s4 = counters s3"
    and "queue_size s4 = queue_size s3" and "brk s4 = brk s3"
    and "length (cells s4) = length (cells s3)"
    and "length (cas_script s4) \<le> length (cas_script s3)"
    and "(r4 = Returns False \<and> (x4 = x \<or> x4 = None) \<and> values s4 = values s3 \<and> cells s4 = cells s3)
       \<or> (r4 = Returns True \<and>
           (\<exists>v. x4 = Some v \<and> next n0 = Some v \<and> \<not> locked n0 \<and> v < length (cells s3)
               \<and> \<not> locked (current s3 v)
               \<and> values s4 = (values s3)[v := (current s3 v)\<lparr>locked := True\<rparr>]
               \<and> heap s4 data_new = n0\<lparr>next := next (current s3 v)\<rparr>
               \<and> cells s4 ! v \<notin> set (cells s3)
               \<and> cells s4 = (cells s3)[v := cells s4 ! v]))"
proof -
  let ?goal = "queue_inv [data_new] s4 \<and> counters s4 = counters s3
    \<and> queue_size s4 = queue_size s3 \<and> brk s4 = brk s3
    \<and> length (cells s4) = length (cells s3)
    \<and> length (cas_script s4) \<le> length (cas_script s3)
    \<and> ((r4 = Returns False \<and> (x4 = x \<or> x4 = None) \<and> values s4 = values s3 \<and> cells s4 = cells s3)
       \<or> (r4 = Returns True \<and>
           (\<exists>v. x4 = Some v \<and> next n0 = Some v \<and> \<not> locked n0 \<and> v < length (cells s3)
               \<and> \<not> locked (current s3 v)
               \<and> values s4 = (values s3)[v := (current s3 v)\<lparr>locked := True\<rparr>]
               \<and> heap s4 data_new = n0\<lparr>next := next (current s3 v)\<rparr>
               \<and> cells s4 ! v \<notin> set (cells s3)
               \<and> cells s4 = (cells s3)[v := cells s4 ! v])))"
  have ?goal
  proof (cases "locked n0")
    case True
    with ef h inv show ?thesis by (simp add: erase_fn_def)
  next
    case unlocked: False
    show ?thesis
    proof (cases "next n0")
      case None
      with ef h inv unlocked show ?thesis by (simp add: erase_fn_def)
    next
      case (Some v)
      with lk have v: "v < length (cells s3)" by simp
      obtain ri na si where uw: "update_weak lock_fn v None s3 = (ri, na, si)"
        by (cases "update_weak lock_fn v None s3") auto
      note l = update_weak_lifted [OF inv v uw [unfolded lock_fn_lifted]]
      have nt: "ri \<noteq> Throws" using l(11) by (auto split: if_splits)
      show ?thesis
      proof (cases "ri = Returns True")
        case False
        with nt have ri: "ri = Returns False" by (cases ri) auto
        have e: "r4 = Returns False" "x4 = None" "s4 = si"
          using ef h unlocked Some uw ri by (simp_all add: erase_fn_def)
        have "cells si = cells s3" using l(2) False by simp
        then show ?thesis
          using l(1) l(3) l(4) l(5) l(6) l(7) l(10) [OF False] by (simp add: e)
      next
        case True
        have e: "r4 = Returns True" "x4 = Some v"
          "s4 = si\<lparr>heap := (heap si)(data_new := (heap si data_new)\<lparr>next := na\<rparr>)\<rparr>"
          using ef h unlocked Some uw True by (simp_all add: erase_fn_def)
        from l(9) [OF True] have g: "\<not> locked (current s3 v)" "na = next (current s3 v)"
          "current si v = (current s3 v)\<lparr>locked := True\<rparr>"
          "values si = (values s3)[v := current si v]"
          by (auto split: if_splits)
        note lc = update_weak_lifted_cells [OF inv v uw [unfolded lock_fn_lifted True]]
        have hd: "heap si data_new = n0" using l(8) h by simp
        have nin: "data_new \<notin> set (cells si)" using l(1) by (rule not_held_cell)
        have v4: "values s4 = values si"
          unfolding e(3) using nin by (rule values_heap_upd)
        have i4: "queue_inv [data_new] s4"
          unfolding e(3) using l(1) by (rule queue_inv_frame)
        show ?thesis
          using i4 v4 g hd lc l(3) l(4) l(5) l(6) l(7) Some unlocked v
          by (simp add: e)
      qed
    qed
  qed
  then show "queue_inv [data_new] s4" and "counters s4 = counters s3"
    and "queue_size s4 = queue_size s3" and "brk s4 = brk s3"
    and "length (cells s4) = length (cells s3)"
    and "length (cas_script s4) \<le> length (cas_script s3)"
    and "(r4 = Returns False \<and> (x4 = x \<or> x4 = None) \<and> values s4 = values s3 \<and> cells s4 = cells s3)
       \<or> (r4 = Returns True \<and>
           (\<exists>v. x4 = Some v \<and> next n0 = Some v \<and> \<not> locked n0 \<and> v < length (cells s3)
               \<and> \<not> locked (current s3 v)
               \<and> values s4 = (values s3)[v := (current s3 v)\<lparr>locked := True\<rparr>]
               \<and> heap s4 data_new = n0\<lparr>next := next (current s3 v)\<rparr>
               \<and> cells s4 ! v \<notin> set (cells s3)
               \<and> cells s4 = (cells s3)[v := cells s4 ! v]))"
    by blast+
qed


lemma current_in_values: "c < length (cells s) \<Longrightarrow> current s c \<in> set (values s)"
  by (metis length_values nth_mem values_nth)

text \<open>The outer \<^verbatim>\<open>update_weak\<close> of \<^verbatim>\<open>erase_after_weak\<close>.\<close>

lemma erase_attempt_effect:
  assumes inv: "queue_inv [] s" and lv: "links_valid s" and pos: "pos < length (cells s)"
    and ea: "erase_attempt pos s = (r, node_next, s1)"
  shows "queue_inv [] s1" and "counters s1 = counters s"
    and "queue_size s1 = queue_size s" and "brk s1 = brk s"
    and "length (cells s1) = length (cells s)"
    and "length (cas_script s1) \<le> length (cas_script s)"
    and "(r = Returns False \<and> node_next = None \<and> values s1 = values s)
       \<or> (\<exists>v. node_next = Some v \<and> next (current s pos) = Some v \<and> v < length (cells s)
              \<and> \<not> locked (current s v) \<and> \<not> locked (current s pos)
              \<and> ((r = Returns False
                   \<and> values s1 = (values s)[v := (current s v)\<lparr>locked := True\<rparr>])
                 \<or> (r = Returns True \<and> v \<noteq> pos
                    \<and> values s1 = (values s)[v := (current s v)\<lparr>locked := True\<rparr>,
                         pos := (current s pos)\<lparr>next := next (current s v)\<rparr>])))"
proof -
  let ?goal = "queue_inv [] s1 \<and> counters s1 = counters s
    \<and> queue_size s1 = queue_size s \<and> brk s1 = brk s
    \<and> length (cells s1) = length (cells s)
    \<and> length (cas_script s1) \<le> length (cas_script s)
    \<and> ((r = Returns False \<and> node_next = None \<and> values s1 = values s)
       \<or> (\<exists>v. node_next = Some v \<and> next (current s pos) = Some v \<and> v < length (cells s)
              \<and> \<not> locked (current s v) \<and> \<not> locked (current s pos)
              \<and> ((r = Returns False
                   \<and> values s1 = (values s)[v := (current s v)\<lparr>locked := True\<rparr>])
                 \<or> (r = Returns True \<and> v \<noteq> pos
                    \<and> values s1 = (values s)[v := (current s v)\<lparr>locked := True\<rparr>,
                         pos := (current s pos)\<lparr>next := next (current s v)\<rparr>]))))"
  have ?goal
  proof (cases "allocate pos s")
    case (Inl s0)
    with ea have e: "r = Returns False" "node_next = None" "s1 = s0"
      by (simp_all add: erase_attempt_def update_weak_split)
    from allocate_Inl [OF Inl] show ?thesis
      using inv by (auto simp: e queue_inv_frame values_def)
  next
    case (Inr y)
    then obtain data_new data_old ticket s3 where
      al: "allocate pos s = Inr (data_new, data_old, ticket, s3)"
      by (cases y) auto
    note a = allocate_effect [OF inv al]
    have h3: "heap s3 data_new = current s pos" by (simp add: a(4))
    have lk: "case next (current s pos) of None \<Rightarrow> True | Some v \<Rightarrow> v < length (cells s3)"
      using lv current_in_values [OF pos]
      by (auto simp: links_valid_def links_ok_def a(2) split: option.splits)
    obtain r4 x4 s4 where ef: "erase_fn data_new None s3 = (r4, x4, s4)"
      by (cases "erase_fn data_new None s3") auto
    note f = erase_fn_effect [OF a(1) h3 lk ef]
    have pos4: "pos < length (cells s4)" using pos f(5) a(2) by simp
    have p: "publish pos data_new data_old ticket (r4, x4, s4) = (r, node_next, s1)"
      using ea al ef by (simp add: erase_attempt_def update_weak_split)
    note e = publish_effect [OF f(1) pos4 p]
    have ci: "counter_index s4 = counter_index s"
      using f(3) a(7) by (intro counter_index_cong) simp
    have cnt: "counters s1 = counters s"
      by (simp add: e(8) ci f(2) a(6))
    have cur: "current s3 c = current s c" if "c < length (cells s)" for c
      using that a(2) a(3) by (metis values_nth)
    have frame: "queue_inv [] s1 \<and> counters s1 = counters s
      \<and> queue_size s1 = queue_size s \<and> brk s1 = brk s
      \<and> length (cells s1) = length (cells s)
      \<and> length (cas_script s1) \<le> length (cas_script s)"
      using e(1) cnt e(3) e(4) e(6) e(7) f(3) f(4) f(5) f(6) a(2) a(7) a(8) a(9) by simp
    show ?thesis
    proof (cases "r4 = Returns True")
      case False
      with f(7) have r4: "r4 = Returns False" and x4: "x4 = None"
        and v4: "values s4 = values s3" by auto
      have "r \<noteq> Returns True" using e(9) r4 by auto
      from e(10) [OF this] r4 have "r = Returns False" "values s1 = values s4" by auto
      then show ?thesis using frame x4 v4 e(2) a(3) by auto
    next
      case r4: True
      with f(7) obtain v where x4: "x4 = Some v"
        and nx: "next (current s pos) = Some v" and ul: "\<not> locked (current s pos)"
        and v: "v < length (cells s3)" and ulv: "\<not> locked (current s3 v)"
        and v4: "values s4 = (values s3)[v := (current s3 v)\<lparr>locked := True\<rparr>]"
        and h4: "heap s4 data_new = (current s pos)\<lparr>next := next (current s3 v)\<rparr>"
        and nin: "cells s4 ! v \<notin> set (cells s3)"
        by auto
      have vs: "v < length (cells s)" using v a(2) by simp
      have cv: "current s3 v = current s v" using cur [OF vs] .
      show ?thesis
      proof (cases "r = Returns True")
        case True
        from e(9) [OF True] have c4: "cells s4 ! pos = data_old"
          and v1: "values s1 = (values s4)[pos := heap s4 data_new]" by simp_all
        have "cells s4 ! pos \<in> set (cells s3)"
          unfolding c4 a(5) a(2) using pos by simp
        with nin have "v \<noteq> pos" by auto
        then show ?thesis
          using frame True v1 v4 h4 cv a(3) x4 e(2) nx ul ulv vs by auto
      next
        case False
        from e(10) [OF False] r4 False have "r = Returns False" "values s1 = values s4" by auto
        then show ?thesis
          using frame v4 cv a(3) x4 e(2) nx ul ulv vs by auto
      qed
    qed
  qed
  then show "queue_inv [] s1" and "counters s1 = counters s"
    and "queue_size s1 = queue_size s" and "brk s1 = brk s"
    and "length (cells s1) = length (cells s)"
    and "length (cas_script s1) \<le> length (cas_script s)"
    and "(r = Returns False \<and> node_next = None \<and> values s1 = values s)
       \<or> (\<exists>v. node_next = Some v \<and> next (current s pos) = Some v \<and> v < length (cells s)
              \<and> \<not> locked (current s v) \<and> \<not> locked (current s pos)
              \<and> ((r = Returns False
                   \<and> values s1 = (values s)[v := (current s v)\<lparr>locked := True\<rparr>])
                 \<or> (r = Returns True \<and> v \<noteq> pos
                    \<and> values s1 = (values s)[v := (current s v)\<lparr>locked := True\<rparr>,
                         pos := (current s pos)\<lparr>next := next (current s v)\<rparr>])))"
    by blast+
qed

section \<open>The claim about erase\_after\_weak\<close>

lemma unlock_yes: "fst (unlock a) = Returns True"
  by (simp add: unlock_def)

lemma mark_deleted_yes: "fst (mark_deleted a) = Returns True"
  by (simp add: mark_deleted_def)

text \<open>
  C7. Let the outer \<^verbatim>\<open>update_weak\<close> of \<^verbatim>\<open>erase_after_weak( pos )\<close> return \<open>r\<close> and leave
  \<open>node_next\<close>. If it failed with \<open>node_next\<close> set, the node behind \<open>pos\<close> is locked at
  that point, the strong \<^verbatim>\<open>update\<close> that unlocks it returns, the node is unlocked and the
  result is the empty iterator. If it succeeded, \<open>node_next\<close> is the node that was behind
  \<open>pos\<close>, the strong \<^verbatim>\<open>update\<close> that marks it returns, the node is deleted and the result is
  an iterator to it.
\<close>

theorem erase_after_weak_outcome:
  assumes li: "list_inv s" and pos: "pos < length (cells s)"
    and ea: "erase_attempt pos s = (r, node_next, s1)"
  shows "(r = Returns False \<and> node_next = Some victim \<longrightarrow>
            next (current s pos) = Some victim \<and> \<not> locked (current s victim)
            \<and> locked (current s1 victim)
            \<and> (\<exists>s2. update (on_object unlock) victim () s1 = Some (Returns (), (), s2)
                   \<and> erase_after_weak pos s = Some (Returns None, s2)
                   \<and> current s2 victim = (current s1 victim)\<lparr>locked := False\<rparr>))
       \<and> (r = Returns True \<longrightarrow>
            (\<exists>victim s2. node_next = Some victim \<and> next (current s pos) = Some victim
                   \<and> update (on_object mark_deleted) victim () s1 = Some (Returns (), (), s2)
                   \<and> erase_after_weak pos s = Some (Returns (Some victim), s2)
                   \<and> current s2 victim = (current s1 victim)\<lparr>deleted := True\<rparr>))"
proof -
  from li have inv: "queue_inv [] s" and z: "counters s 0 = 0" "counters s 1 = 0"
    and lv: "links_valid s"
    by (simp_all add: list_inv_def quiescent_def)
  note e = erase_attempt_effect [OF inv lv pos ea]
  have q1: "quiescent s1" using e(1) e(2) z by (simp add: quiescent_def)
  have fail: "next (current s pos) = Some victim \<and> \<not> locked (current s victim)
            \<and> locked (current s1 victim)
            \<and> (\<exists>s2. update (on_object unlock) victim () s1 = Some (Returns (), (), s2)
                   \<and> erase_after_weak pos s = Some (Returns None, s2)
                   \<and> current s2 victim = (current s1 victim)\<lparr>locked := False\<rparr>)"
    if r: "r = Returns False" and nn: "node_next = Some victim"
  proof -
    from e(7) r nn have nx: "next (current s pos) = Some victim"
      and v: "victim < length (cells s)" and ul: "\<not> locked (current s victim)"
      and v1: "values s1 = (values s)[victim := (current s victim)\<lparr>locked := True\<rparr>]"
      by auto
    have v': "victim < length (cells s1)" using v e(5) by simp
    have "values s1 ! victim = (current s victim)\<lparr>locked := True\<rparr>"
      unfolding v1 using v by simp
    then have c1: "current s1 victim = (current s victim)\<lparr>locked := True\<rparr>"
      using v' by (simp add: values_nth)
    from update_quiescent [of unlock s1 victim "()", OF unlock_yes q1 v']
    obtain s2 where u: "update (on_object unlock) victim () s1 = Some (Returns (), (), s2)"
      and l2: "length (cells s2) = length (cells s1)"
      and v2: "values s2 = (values s1)[victim := snd (unlock (current s1 victim))]"
      by blast
    have "values s2 ! victim = snd (unlock (current s1 victim))"
      unfolding v2 using v' by simp
    then have c2: "current s2 victim = (current s1 victim)\<lparr>locked := False\<rparr>"
      using v' l2 by (simp add: values_nth unlock_def)
    have "erase_after_weak pos s = Some (Returns None, s2)"
      by (simp add: erase_after_weak_def ea r nn u)
    with nx ul c1 u c2 show ?thesis by simp
  qed
  have ok: "\<exists>victim s2. node_next = Some victim \<and> next (current s pos) = Some victim
                   \<and> update (on_object mark_deleted) victim () s1 = Some (Returns (), (), s2)
                   \<and> erase_after_weak pos s = Some (Returns (Some victim), s2)
                   \<and> current s2 victim = (current s1 victim)\<lparr>deleted := True\<rparr>"
    if r: "r = Returns True"
  proof -
    from e(7) r obtain victim where nn: "node_next = Some victim"
      and nx: "next (current s pos) = Some victim" and v: "victim < length (cells s)"
      by auto
    have v': "victim < length (cells s1)" using v e(5) by simp
    from update_quiescent [of mark_deleted s1 victim "()", OF mark_deleted_yes q1 v']
    obtain s2 where u: "update (on_object mark_deleted) victim () s1 = Some (Returns (), (), s2)"
      and l2: "length (cells s2) = length (cells s1)"
      and v2: "values s2 = (values s1)[victim := snd (mark_deleted (current s1 victim))]"
      by blast
    have "values s2 ! victim = snd (mark_deleted (current s1 victim))"
      unfolding v2 using v' by simp
    then have c2: "current s2 victim = (current s1 victim)\<lparr>deleted := True\<rparr>"
      using v' l2 by (simp add: values_nth mark_deleted_def)
    have "erase_after_weak pos s = Some (Returns (Some victim), s2)"
      by (simp add: erase_after_weak_def ea r nn u)
    with nn nx u c2 show ?thesis by blast
  qed
  from fail ok show ?thesis by blast
qed

lemma list_inv_two_nodes: "list_inv two_nodes"
  by code_simp

lemma list_inv_two_nodes_contended: "list_inv two_nodes_contended"
  using list_inv_two_nodes
  by (simp add: two_nodes_contended_def list_inv_def quiescent_def queue_inv_frame
      links_valid_def values_def)

theorem erase_after_weak_outcome_witness:
  "list_inv two_nodes \<and> list_inv two_nodes_contended
   \<and> fst (erase_attempt 0 two_nodes) = Returns True
   \<and> fst (erase_attempt 0 two_nodes_contended) = Returns False
   \<and> fst (snd (erase_attempt 0 two_nodes_contended)) = Some 1
   \<and> (\<exists>s2. erase_after_weak 0 two_nodes = Some (Returns (Some 1), s2) \<and> deleted (current s2 1))
   \<and> (\<exists>s2. erase_after_weak 0 two_nodes_contended = Some (Returns None, s2)
           \<and> \<not> locked (current s2 1))"
proof -
  let ?a = "erase_attempt 0 two_nodes"
  let ?b = "erase_attempt 0 two_nodes_contended"
  have la: "(0::nat) < length (cells two_nodes)" by (simp add: two_nodes_def)
  have lb: "(0::nat) < length (cells two_nodes_contended)"
    by (simp add: two_nodes_contended_def two_nodes_def)
  have a: "?a = (fst ?a, fst (snd ?a), snd (snd ?a))"
    and b: "?b = (fst ?b, fst (snd ?b), snd (snd ?b))" by simp_all
  have ra: "fst ?a = Returns True" "next (current two_nodes 0) = Some 1"
    by (simp_all add: two_nodes_def blank_def run_defs list_defs cong: run_congs)
  have rb: "fst ?b = Returns False" "fst (snd ?b) = Some 1"
    by (simp_all add: two_nodes_contended_def two_nodes_def blank_def run_defs list_defs
        cong: run_congs)
  from erase_after_weak_outcome [OF list_inv_two_nodes la a, of 1] ra
  obtain s2 where "erase_after_weak 0 two_nodes = Some (Returns (Some 1), s2)"
    "current s2 1 = (current (snd (snd ?a)) 1)\<lparr>deleted := True\<rparr>"
    by auto
  then have wa: "\<exists>s2. erase_after_weak 0 two_nodes = Some (Returns (Some 1), s2)
     \<and> deleted (current s2 1)" by auto
  from erase_after_weak_outcome [OF list_inv_two_nodes_contended lb b, of 1] rb
  obtain s2 where "erase_after_weak 0 two_nodes_contended = Some (Returns None, s2)"
    "current s2 1 = (current (snd (snd ?b)) 1)\<lparr>locked := False\<rparr>"
    by auto
  then have wb: "\<exists>s2. erase_after_weak 0 two_nodes_contended = Some (Returns None, s2)
     \<and> \<not> locked (current s2 1)" by auto
  show ?thesis
    using list_inv_two_nodes list_inv_two_nodes_contended ra(1) rb wa wb by blast
qed

section \<open>The flags of the nodes\<close>

lemma flags_kept_refl: "locked_if_deleted ns \<Longrightarrow> flags_kept ns ns"
  by (simp add: flags_kept_def locked_if_deleted_def)

lemma flags_kept_trans: "flags_kept ns ns' \<Longrightarrow> flags_kept ns' ns'' \<Longrightarrow> flags_kept ns ns''"
  by (fastforce simp: flags_kept_def)

lemma flags_kept_append: "locked_if_deleted ns \<Longrightarrow> flags_kept ns (ns @ ms)"
  by (simp add: flags_kept_def nth_append locked_if_deleted_def)

text \<open>Replacing one node by a node with the same link or a link that exists.\<close>

lemma nodes_update:
  assumes l: "links_ok ns" and d: "locked_if_deleted ns" and c: "c < length ns"
    and nx: "case next n of None \<Rightarrow> True | Some v \<Rightarrow> v < length ns"
    and dl: "deleted n \<longrightarrow> locked n" and k: "deleted (ns ! c) \<longrightarrow> deleted n"
  shows "links_ok (ns[c := n])" and "locked_if_deleted (ns[c := n])"
    and "flags_kept ns (ns[c := n])"
proof -
  have sub: "set (ns[c := n]) \<subseteq> insert n (set ns)" by (rule set_update_subset_insert)
  show "links_ok (ns[c := n])"
    using l nx sub by (auto simp: links_ok_def split: option.splits)
  show "locked_if_deleted (ns[c := n])"
    using d dl sub by (auto simp: locked_if_deleted_def)
  show "flags_kept ns (ns[c := n])"
    using d dl k c by (auto simp: flags_kept_def locked_if_deleted_def nth_list_update)
qed

lemma nodes_append:
  assumes l: "links_ok ns" and d: "locked_if_deleted ns"
    and nx: "case next n of None \<Rightarrow> True | Some v \<Rightarrow> v < Suc (length ns)"
    and dl: "deleted n \<longrightarrow> locked n"
  shows "links_ok (ns @ [n])" and "locked_if_deleted (ns @ [n])"
  using assms by (auto simp: links_ok_def locked_if_deleted_def split: option.splits)

lemma links_okD:
  "links_ok ns \<Longrightarrow> c < length ns \<Longrightarrow> next (ns ! c) = Some v \<Longrightarrow> v < length ns"
  by (force simp: links_ok_def split: option.splits)


lemma list_step_refl: "list_inv s \<Longrightarrow> deleted_locked s \<Longrightarrow> list_step s s"
  by (simp add: list_step_def deleted_locked_def flags_kept_refl)

lemma list_step_trans: "list_step s s' \<Longrightarrow> list_step s' s'' \<Longrightarrow> list_step s s''"
  unfolding list_step_def using flags_kept_trans by blast

lemma list_step_values:
  assumes "list_inv s" and "deleted_locked s" and "quiescent s'" and "values s' = values s"
  shows "list_step s s'"
  using assms
  by (simp add: list_step_def list_inv_def links_valid_def deleted_locked_def flags_kept_refl)

text \<open>One node replaced.\<close>

lemma list_step_update:
  assumes li: "list_inv s" and dl: "deleted_locked s" and c: "c < length (cells s)"
    and q: "quiescent s'" and v: "values s' = (values s)[c := n]"
    and nx: "next n = next (current s c) \<or> next n = None"
    and d: "deleted n \<longrightarrow> locked n" and k: "deleted (current s c) \<longrightarrow> deleted n"
  shows "list_step s s'"
proof -
  from li have l: "links_ok (values s)" by (simp add: list_inv_def links_valid_def)
  from dl have d0: "locked_if_deleted (values s)" by (simp add: deleted_locked_def)
  have c': "c < length (values s)" using c by simp
  have cur: "values s ! c = current s c" using c by (rule values_nth)
  have nx': "case next n of None \<Rightarrow> True | Some v \<Rightarrow> v < length (values s)"
    using nx links_okD [OF l c'] by (auto simp: cur split: option.splits)
  have k': "deleted (values s ! c) \<longrightarrow> deleted n" using k by (simp add: cur)
  note u = nodes_update [OF l d0 c' nx' d k']
  show ?thesis
    using u q by (simp add: list_step_def list_inv_def links_valid_def deleted_locked_def v)
qed

text \<open>\<^verbatim>\<open>update_weak\<close> with a functor that keeps the link and the flags in order.\<close>

lemma update_weak_list_step:
  assumes li: "list_inv s" and dl: "deleted_locked s" and c: "c < length (cells s)"
    and uw: "update_weak (on_object f) c x s = (r, x', s')"
    and f: "\<And>n. f (current s c) = (Returns True, n) \<Longrightarrow>
              next n = next (current s c) \<and> (deleted n \<longrightarrow> locked n)
              \<and> (deleted (current s c) \<longrightarrow> deleted n)"
  shows "list_step s s'"
proof -
  from li have q: "quiescent s" by (simp add: list_inv_def)
  then have inv: "queue_inv [] s" by (simp add: quiescent_def)
  note l = update_weak_lifted [OF inv c uw [unfolded on_object_lifted]]
  have q': "quiescent s'" using q l(1) l(4) by (simp add: quiescent_def)
  show ?thesis
  proof (cases "r = Returns True")
    case True
    from l(9) [OF True] have fc: "f (current s c) = (Returns True, current s' c)"
      and v: "values s' = (values s)[c := current s' c]"
      by (simp_all add: prod_eq_iff)
    from f [OF fc] show ?thesis
      using list_step_update [OF li dl c q' v] by simp
  next
    case False
    from l(10) [OF False] show ?thesis
      using li dl q' by (intro list_step_values)
  qed
qed

text \<open>The functor of \<^verbatim>\<open>insert_after_weak\<close>, run on the copy \<open>n0\<close> of the node at \<open>pos\<close>.\<close>

lemma insert_fn_effect:
  assumes inv: "queue_inv [data_new] s3" and h: "heap s3 data_new = n0"
    and ef: "insert_fn v data_new x s3 = (r4, x4, s4)"
  shows "(r4 = Returns False \<and> locked n0 \<and> x4 = x \<and> s4 = s3)
       \<or> (r4 = Returns True \<and> \<not> locked n0 \<and> x4 = Some (length (cells s3))
          \<and> queue_inv [data_new] s4 \<and> counters s4 = counters s3
          \<and> queue_size s4 = queue_size s3 \<and> cas_script s4 = cas_script s3
          \<and> length (cells s4) = Suc (length (cells s3))
          \<and> values s4 = values s3
                @ [\<lparr>locked = False, deleted = False, data = v, next = next n0\<rparr>]
          \<and> heap s4 data_new = n0\<lparr>next := Some (length (cells s3))\<rparr>)"
proof (cases "locked n0")
  case True
  with ef h show ?thesis by (simp add: insert_fn_def)
next
  case False
  let ?new = "\<lparr>locked = False, deleted = False, data = v, next = next n0\<rparr>"
  let ?s4 = "s3\<lparr>heap := (heap s3)(brk s3 := ?new,
                 data_new := n0\<lparr>next := Some (length (cells s3))\<rparr>),
               brk := Suc (brk s3), cells := cells s3 @ [brk s3]\<rparr>"
  have lt: "data_new < brk s3" "\<forall>p \<in> set (cells s3). p < brk s3"
    "\<forall>p \<in> set (free_slots s3). p < brk s3"
    using inv by (auto simp: queue_inv_def)
  have e: "r4 = Returns True" "x4 = Some (length (cells s3))" "s4 = ?s4"
    using ef h False lt(1)
    by (auto simp: insert_fn_def new_object_def atomic_data_def Let_def fun_upd_twist)
  have nin: "data_new \<notin> set (cells s3)" using inv by (rule not_held_cell)
  have m: "map ((heap s3)(brk s3 := a, data_new := b)) (cells s3) = map (heap s3) (cells s3)"
    for a b
    using lt(2) nin by (induction "cells s3") auto
  have vals: "values ?s4 = values s3 @ [?new]"
    using lt(1) by (simp add: values_def m)
  have i4: "queue_inv [data_new] ?s4"
    using inv lt by (fastforce simp: queue_inv_def less_Suc_eq)
  show ?thesis
    using False vals i4 lt(1) by (simp add: e)
qed


lemma list_stepI:
  assumes "quiescent s'" and "links_ok (values s')" and "locked_if_deleted (values s')"
    and "flags_kept (values s) (values s')"
  shows "list_step s s'"
  using assms by (simp add: list_step_def list_inv_def links_valid_def deleted_locked_def)

text \<open>A new node behind the node at \<open>pos\<close>, linked or not.\<close>

lemma nodes_insert:
  assumes l: "links_ok ns" and d: "locked_if_deleted ns" and pos: "pos < length ns"
    and new: "new = \<lparr>locked = False, deleted = False, data = v, next = next (ns ! pos)\<rparr>"
    and n': "n' = (ns ! pos)\<lparr>next := Some (length ns)\<rparr>"
  shows "links_ok (ns @ [new])" and "locked_if_deleted (ns @ [new])"
    and "flags_kept ns (ns @ [new])"
    and "links_ok ((ns @ [new])[pos := n'])" and "locked_if_deleted ((ns @ [new])[pos := n'])"
    and "flags_kept ns ((ns @ [new])[pos := n'])"
proof -
  have nx: "case next new of None \<Rightarrow> True | Some c \<Rightarrow> c < Suc (length ns)"
    using links_okD [OF l pos] by (auto simp: new split: option.splits)
  have dn: "deleted new \<longrightarrow> locked new" by (simp add: new)
  show a1: "links_ok (ns @ [new])" and a2: "locked_if_deleted (ns @ [new])"
    using nodes_append [OF l d nx dn] by simp_all
  show a3: "flags_kept ns (ns @ [new])" using d by (rule flags_kept_append)
  have pos': "pos < length (ns @ [new])" using pos by simp
  have at: "(ns @ [new]) ! pos = ns ! pos" using pos by (simp add: nth_append)
  have nx': "case next n' of None \<Rightarrow> True | Some c \<Rightarrow> c < length (ns @ [new])"
    by (simp add: n')
  have dl: "deleted n' \<longrightarrow> locked n'"
    using d pos by (auto simp: n' locked_if_deleted_def)
  have k: "deleted ((ns @ [new]) ! pos) \<longrightarrow> deleted n'" by (simp add: at n')
  note u = nodes_update [OF a1 a2 pos' nx' dl k]
  show "links_ok ((ns @ [new])[pos := n'])" and "locked_if_deleted ((ns @ [new])[pos := n'])"
    using u by simp_all
  show "flags_kept ns ((ns @ [new])[pos := n'])"
    using a3 u(3) by (rule flags_kept_trans)
qed

lemma insert_after_weak_step:
  assumes li: "list_inv s" and dl: "deleted_locked s" and pos: "pos < length (cells s)"
    and ins: "insert_after_weak pos v s = (r, s')"
  shows "list_step s s'"
proof -
  from li have q: "quiescent s" and l: "links_ok (values s)"
    by (simp_all add: list_inv_def links_valid_def)
  from q have inv: "queue_inv [] s" and z: "counters s 0 = 0" "counters s 1 = 0"
    by (simp_all add: quiescent_def)
  from dl have d: "locked_if_deleted (values s)" by (simp add: deleted_locked_def)
  obtain r0 nn where uw: "update_weak (insert_fn v) pos None s = (r0, nn, s')"
    using ins by (auto simp: insert_after_weak_def split: prod.splits result.splits)
  show ?thesis
  proof (cases "allocate pos s")
    case (Inl s0)
    with uw have "s' = s0" by (simp add: update_weak_split)
    with allocate_Inl [OF Inl] have "quiescent s' \<and> values s' = values s"
      using q by (auto simp: quiescent_def queue_inv_frame values_def)
    then show ?thesis using li dl by (intro list_step_values) simp_all
  next
    case (Inr y)
    then obtain data_new data_old ticket s3 where
      al: "allocate pos s = Inr (data_new, data_old, ticket, s3)"
      by (cases y) auto
    note a = allocate_effect [OF inv al]
    have h3: "heap s3 data_new = current s pos" by (simp add: a(4))
    obtain r4 x4 s4 where ef: "insert_fn v data_new None s3 = (r4, x4, s4)"
      by (cases "insert_fn v data_new None s3") auto
    have p: "publish pos data_new data_old ticket (r4, x4, s4) = (r0, nn, s')"
      using uw al ef by (simp add: update_weak_split)
    note f = insert_fn_effect [OF a(1) h3 ef]
    have i4: "queue_inv [data_new] s4" and c4: "counters s4 = counters s3"
      and q4: "queue_size s4 = queue_size s3" and pos4: "pos < length (cells s4)"
      using f a(1) a(2) pos by auto
    note e = publish_effect [OF i4 pos4 p]
    have ci: "counter_index s4 = counter_index s"
      using q4 a(7) by (intro counter_index_cong) simp
    have "counters s' = counters s" by (simp add: e(8) ci c4 a(6))
    then have q': "quiescent s'" using e(1) z by (simp add: quiescent_def)
    let ?new = "\<lparr>locked = False, deleted = False, data = v, next = next (values s ! pos)\<rparr>"
    let ?n' = "(values s ! pos)\<lparr>next := Some (length (values s))\<rparr>"
    have pos': "pos < length (values s)" using pos by simp
    note n = nodes_insert [OF l d pos' refl refl, of v]
    have cur: "current s pos = values s ! pos" using pos by (simp add: values_nth)
    from f show ?thesis
    proof
      assume "r4 = Returns False \<and> locked (current s pos) \<and> x4 = None \<and> s4 = s3"
      then have r4: "r4 = Returns False" and s4: "s4 = s3" by simp_all
      have "r0 \<noteq> Returns True" using e(9) r4 by auto
      from e(10) [OF this] have "values s' = values s" by (simp add: s4 a(3))
      then show ?thesis using li dl q' by (intro list_step_values)
    next
      assume t: "r4 = Returns True \<and> \<not> locked (current s pos) \<and> x4 = Some (length (cells s3))
          \<and> queue_inv [data_new] s4 \<and> counters s4 = counters s3
          \<and> queue_size s4 = queue_size s3 \<and> cas_script s4 = cas_script s3
          \<and> length (cells s4) = Suc (length (cells s3))
          \<and> values s4 = values s3
                @ [\<lparr>locked = False, deleted = False, data = v, next = next (current s pos)\<rparr>]
          \<and> heap s4 data_new = (current s pos)\<lparr>next := Some (length (cells s3))\<rparr>"
      then have v4: "values s4 = values s @ [?new]" and h4: "heap s4 data_new = ?n'"
        by (simp_all add: a(2) a(3) cur)
      show ?thesis
      proof (cases "r0 = Returns True")
        case True
        from e(9) [OF True] have "values s' = (values s @ [?new])[pos := ?n']"
          by (simp add: v4 h4)
        then show ?thesis using q' n(4) n(5) n(6) by (intro list_stepI) simp_all
      next
        case False
        from e(10) [OF False] have "values s' = values s @ [?new]" by (simp add: v4)
        then show ?thesis using q' n(1) n(2) n(3) by (intro list_stepI) simp_all
      qed
    qed
  qed
qed


lemma erase_after_weak_step:
  assumes li: "list_inv s" and dl: "deleted_locked s" and pos: "pos < length (cells s)"
    and er: "erase_after_weak pos s = Some (r, s')"
  shows "list_step s s'"
proof -
  from li have q: "quiescent s" and l: "links_ok (values s)" and lv: "links_valid s"
    by (simp_all add: list_inv_def links_valid_def)
  from q have inv: "queue_inv [] s" and z: "counters s 0 = 0" "counters s 1 = 0"
    by (simp_all add: quiescent_def)
  from dl have d: "locked_if_deleted (values s)" by (simp add: deleted_locked_def)
  obtain r1 node_next s1 where ea: "erase_attempt pos s = (r1, node_next, s1)"
    by (cases "erase_attempt pos s") auto
  note e = erase_attempt_effect [OF inv lv pos ea]
  have q1: "quiescent s1" using e(1) e(2) z by (simp add: quiescent_def)
  from e(7) consider
    (none) "r1 = Returns False" "node_next = None" "values s1 = values s"
  | (unlocked) v where "r1 = Returns False" "node_next = Some v" "v < length (cells s)"
      "\<not> locked (current s v)"
      "values s1 = (values s)[v := (current s v)\<lparr>locked := True\<rparr>]"
  | (erased) v where "r1 = Returns True" "node_next = Some v" "v < length (cells s)"
      "next (current s pos) = Some v" "v \<noteq> pos"
      "values s1 = (values s)[v := (current s v)\<lparr>locked := True\<rparr>,
          pos := (current s pos)\<lparr>next := next (current s v)\<rparr>]"
    by blast
  then show ?thesis
  proof cases
    case none
    with er ea have "s' = s1" by (simp add: erase_after_weak_def)
    then show ?thesis using li dl q1 none(3) by (intro list_step_values) simp_all
  next
    case unlocked
    have v1: "v < length (cells s1)" using unlocked(3) e(5) by simp
    have c1: "current s1 v = (current s v)\<lparr>locked := True\<rparr>"
      using unlocked(3) v1 values_nth [OF v1] by (simp add: unlocked(5))
    from update_quiescent [of unlock s1 v "()", OF unlock_yes q1 v1]
    obtain s2 where u: "update (on_object unlock) v () s1 = Some (Returns (), (), s2)"
      and q2: "quiescent s2"
      and v2: "values s2 = (values s1)[v := snd (unlock (current s1 v))]"
      by blast
    have "snd (unlock (current s1 v)) = current s v"
      using unlocked(4) by (simp add: c1 unlock_def)
    then have "values s2 = (values s)[v := values s ! v]"
      using unlocked(3) by (simp add: v2 unlocked(5) values_nth)
    then have vs: "values s2 = values s" by simp
    from er ea u have "s' = s2" by (simp add: erase_after_weak_def unlocked(1,2))
    then show ?thesis using li dl q2 vs by (intro list_step_values) simp_all
  next
    case erased
    have v1: "v < length (cells s1)" using erased(3) e(5) by simp
    have v': "v < length (values s)" and pos': "pos < length (values s)"
      using erased(3) pos by simp_all
    let ?a = "(values s ! v)\<lparr>locked := True, deleted := True\<rparr>"
    let ?b = "(values s ! pos)\<lparr>next := next (values s ! v)\<rparr>"
    have c1: "current s1 v = (values s ! v)\<lparr>locked := True\<rparr>"
      using erased(3,5) v1 values_nth [OF v1] pos
      by (simp add: erased(6) values_nth)
    from update_quiescent [of mark_deleted s1 v "()", OF mark_deleted_yes q1 v1]
    obtain s2 where u: "update (on_object mark_deleted) v () s1 = Some (Returns (), (), s2)"
      and q2: "quiescent s2"
      and v2: "values s2 = (values s1)[v := snd (mark_deleted (current s1 v))]"
      by blast
    let ?l = "(values s ! v)\<lparr>locked := True\<rparr>"
    have sw: "(values s)[v := ?l, pos := ?b] = (values s)[pos := ?b, v := ?l]"
      using erased(5) by (rule list_update_swap)
    have "values s2 = (values s)[v := ?l, pos := ?b, v := ?a]"
      using erased(3) pos by (simp add: v2 c1 mark_deleted_def erased(6) values_nth)
    also have "\<dots> = (values s)[pos := ?b, v := ?a]" unfolding sw by simp
    also have "\<dots> = (values s)[v := ?a, pos := ?b]"
      using erased(5) by (simp add: list_update_swap)
    finally have vs: "values s2 = ((values s)[v := ?a])[pos := ?b]" .
    from er ea u have s': "s' = s2" by (simp add: erase_after_weak_def erased(1,2))
    have nxa: "case next ?a of None \<Rightarrow> True | Some c \<Rightarrow> c < length (values s)"
      using links_okD [OF l v'] by (auto split: option.splits)
    note ua = nodes_update [OF l d v' nxa, simplified]
    have pos'': "pos < length ((values s)[v := ?a])" using pos' by simp
    have at: "(values s)[v := ?a] ! pos = values s ! pos" using erased(5) by simp
    have nxb: "case next ?b of None \<Rightarrow> True | Some c \<Rightarrow> c < length ((values s)[v := ?a])"
      using links_okD [OF l v'] by (auto split: option.splits)
    have dlb: "deleted ?b \<longrightarrow> locked ?b"
      using d pos' by (auto simp: locked_if_deleted_def)
    have kb: "deleted ((values s)[v := ?a] ! pos) \<longrightarrow> deleted ?b" by (simp add: at)
    note ub = nodes_update [OF ua(1) ua(2) pos'' nxb dlb kb]
    have "flags_kept (values s) (values s2)"
      unfolding vs using ua(3) ub(3) by (rule flags_kept_trans)
    then show ?thesis
      unfolding s' using q2 ub(1) ub(2) by (intro list_stepI) (simp_all add: vs)
  qed
qed

lemma iterator_update_weak_step:
  assumes li: "list_inv s" and dl: "deleted_locked s" and c: "c < length (cells s)"
    and iu: "iterator_update_weak d c s = (r, s')"
  shows "list_step s s'"
proof -
  obtain x' where uw: "update_weak (on_object (set_data d)) c () s = (r, x', s')"
    using iu by (auto simp: iterator_update_weak_def split: prod.splits)
  show ?thesis
    using li dl c uw
  proof (rule update_weak_list_step)
    fix n assume "set_data d (current s c) = (Returns True, n)"
    then show "next n = next (current s c) \<and> (deleted n \<longrightarrow> locked n)
       \<and> (deleted (current s c) \<longrightarrow> deleted n)"
      using dl current_in_values [OF c]
      by (auto simp: set_data_def deleted_locked_def locked_if_deleted_def split: if_splits)
  qed
qed


lemma list_stepD:
  assumes "list_step s s'"
  shows "list_inv s'" and "deleted_locked s'" and "length (cells s) \<le> length (cells s')"
  using assms by (simp_all add: list_step_def flags_kept_def)

text \<open>The two loops, by induction on the iterations of a call that returns.\<close>

lemma iterator_update_step:
  assumes ret: "iterator_update d c s = Some y"
  shows "list_inv s \<longrightarrow> deleted_locked s \<longrightarrow> c < length (cells s) \<longrightarrow> list_step s (snd y)"
proof (rule iterator_update.raw_induct
    [where P = "\<lambda>d c s y. list_inv s \<longrightarrow> deleted_locked s \<longrightarrow> c < length (cells s)
                   \<longrightarrow> list_step s (snd y)", OF _ ret], goal_cases)
  case (1 iterator_update d c s y)
  note ih = 1(1) and body = 1(2)
  show ?case
  proof (intro impI)
    assume li: "list_inv s" and dl: "deleted_locked s" and c: "c < length (cells s)"
    show "list_step s (snd y)"
    proof (cases "deleted (current s c)")
      case True
      with body have "y = (Returns False, s)" by (simp add: is_deleted_Some)
      then show ?thesis using li dl by (simp add: list_step_refl)
    next
      case False
      obtain r s2 where iu: "iterator_update_weak d c s = (r, s2)"
        by (cases "iterator_update_weak d c s") auto
      have st: "list_step s s2" using li dl c iu by (rule iterator_update_weak_step)
      show ?thesis
      proof (cases "r = Returns False")
        case True
        with body False iu have "iterator_update d c s2 = Some y"
          by (simp add: is_deleted_Some)
        from ih [OF this] list_stepD [OF st] c
        have "list_step s2 (snd y)" by simp
        with st show ?thesis by (rule list_step_trans)
      next
        case nf: False
        with body False iu have "snd y = s2"
          by (cases r) (auto simp: is_deleted_Some split: if_splits)
        with st show ?thesis by simp
      qed
    qed
  qed
qed

lemma pop_front_loop_step:
  assumes ret: "pop_front_loop list it s = Some y"
  shows "list_inv s \<longrightarrow> deleted_locked s \<longrightarrow> list < length (cells s) \<longrightarrow> list_step s (snd y)"
proof (rule pop_front_loop.raw_induct
    [where P = "\<lambda>list it s y. list_inv s \<longrightarrow> deleted_locked s \<longrightarrow> list < length (cells s)
                   \<longrightarrow> list_step s (snd y)", OF _ ret], goal_cases)
  case (1 pop_front_loop list it s y)
  note ih = 1(1) and body = 1(2)
  show ?case
  proof (intro impI)
    assume li: "list_inv s" and dl: "deleted_locked s" and c: "list < length (cells s)"
    show "list_step s (snd y)"
    proof (cases "next (current s list) = None")
      case True
      with body have "y = (Returns it, s)" by (simp add: empty_eq)
      then show ?thesis using li dl by (simp add: list_step_refl)
    next
      case False
      with body obtain r s2 where er: "erase_after_weak list s = Some (r, s2)"
        by (cases "erase_after_weak list s") (auto simp: empty_eq)
      have st: "list_step s s2" using li dl c er by (rule erase_after_weak_step)
      show ?thesis
      proof (cases "r = Returns None")
        case True
        with body False er have "pop_front_loop list None s2 = Some y"
          by (simp add: empty_eq)
        from ih [OF this] list_stepD [OF st] c
        have "list_step s2 (snd y)" by simp
        with st show ?thesis by (rule list_step_trans)
      next
        case nf: False
        with body False er have "snd y = s2"
          by (cases r) (auto simp: empty_eq split: if_splits)
        with st show ?thesis by simp
      qed
    qed
  qed
qed

lemma apply_op_step:
  assumes li: "list_inv s" and dl: "deleted_locked s" and l: "list < length (cells s)"
    and ok: "op_ok op s" and ap: "apply_op list op s = Some s'"
  shows "list_step s s'"
proof (cases op)
  case (Push_front v)
  with ap have "insert_after_weak list v s = (fst (push_front list v s), s')"
    by (auto simp: push_front_def)
  with li dl l show ?thesis by (rule insert_after_weak_step)
next
  case (Insert_after_weak pos v)
  with ap ok have "pos < length (cells s)"
    "insert_after_weak pos v s = (fst (insert_after_weak pos v s), s')" by auto
  with li dl show ?thesis by (intro insert_after_weak_step)
next
  case (Erase_after_weak pos)
  with ap ok obtain r where "pos < length (cells s)" "erase_after_weak pos s = Some (r, s')"
    by auto
  with li dl show ?thesis by (intro erase_after_weak_step)
next
  case Pop_front
  with ap obtain r where "pop_front_loop list None s = Some (r, s')"
    by (auto simp: pop_front_def)
  from pop_front_loop_step [OF this] li dl l show ?thesis by simp
next
  case (Iterator_update c v)
  with ap ok obtain r where c: "c < length (cells s)" and "iterator_update v c s = Some (r, s')"
    by auto
  from iterator_update_step [OF this(2)] li dl c show ?thesis by simp
next
  case (Iterator_update_weak c v)
  with ap ok have "c < length (cells s)"
    "iterator_update_weak v c s = (fst (iterator_update_weak v c s), s')" by auto
  with li dl show ?thesis by (intro iterator_update_weak_step)
qed

section \<open>The claim about the flags of the nodes\<close>

text \<open>
  C8. Start in a quiescent list state with valid links in which every deleted node is
  locked. Whatever operation returns from there (\<^verbatim>\<open>push_front\<close>, \<^verbatim>\<open>insert_after_weak\<close>,
  \<^verbatim>\<open>erase_after_weak\<close>, \<^verbatim>\<open>pop_front\<close>, \<^verbatim>\<open>iterator::update\<close>, \<^verbatim>\<open>iterator::update_weak\<close>),
  afterwards every deleted node is locked again, and every node that was deleted before is
  still deleted and still locked. The state is again one to start from.
\<close>

theorem list_operations_keep_flags:
  assumes "list_inv s" and "deleted_locked s" and "list < length (cells s)"
    and "op_ok op s" and "apply_op list op s = Some s'"
  shows "(\<forall>c < length (cells s'). deleted (current s' c) \<longrightarrow> locked (current s' c))
       \<and> (\<forall>c < length (cells s). deleted (current s c) \<longrightarrow>
              deleted (current s' c) \<and> locked (current s' c))
       \<and> length (cells s) \<le> length (cells s')
       \<and> list_inv s' \<and> deleted_locked s'"
proof -
  have st: "list_step s s'" using assms by (rule apply_op_step)
  note d = list_stepD [OF st]
  have a: "\<forall>c < length (cells s'). deleted (current s' c) \<longrightarrow> locked (current s' c)"
    using d(2) current_in_values [of _ s']
    by (auto simp: deleted_locked_def locked_if_deleted_def)
  have b: "\<forall>c < length (cells s). deleted (current s c) \<longrightarrow>
              deleted (current s' c) \<and> locked (current s' c)"
  proof (intro allI impI)
    fix c assume c: "c < length (cells s)" and dc: "deleted (current s c)"
    have c': "c < length (cells s')" using c d(3) by simp
    from st have "flags_kept (values s) (values s')" by (simp add: list_step_def)
    then have "deleted (values s ! c) \<longrightarrow> deleted (values s' ! c) \<and> locked (values s' ! c)"
      using c by (simp add: flags_kept_def)
    then show "deleted (current s' c) \<and> locked (current s' c)"
      using dc c c' by (simp add: values_nth)
  qed
  from a b d show ?thesis by simp
qed

theorem list_operations_keep_flags_witness:
  "list_inv one_erased \<and> deleted_locked one_erased
   \<and> op_ok (Iterator_update_weak 1 9) one_erased \<and> deleted (current one_erased 1)
   \<and> (let s' = snd (iterator_update_weak 9 1 one_erased)
      in apply_op 0 (Iterator_update_weak 1 9) one_erased = Some s'
         \<and> deleted (current s' 1) \<and> locked (current s' 1) \<and> deleted_locked s')"
proof -
  let ?s' = "snd (iterator_update_weak 9 1 one_erased)"
  have li: "list_inv one_erased" and dl: "deleted_locked one_erased" by code_simp+
  have l: "(0::nat) < length (cells one_erased)" and c: "(1::nat) < length (cells one_erased)"
    by (simp_all add: one_erased_def)
  have ok: "op_ok (Iterator_update_weak 1 9) one_erased" using c by simp
  have ap: "apply_op 0 (Iterator_update_weak 1 9) one_erased = Some ?s'" by simp
  have d: "deleted (current one_erased 1)" by (simp add: one_erased_def current_def blank_def)
  from list_operations_keep_flags [OF li dl l ok ap] c d
  have "deleted (current ?s' 1) \<and> locked (current ?s' 1) \<and> deleted_locked ?s'" by blast
  with li dl ok d ap show ?thesis by (simp add: Let_def)
qed

section \<open>The steps of a call\<close>

lemma interleave_add:
  "interleave step env (m + n) cfg
     = interleave step (\<lambda>i. env (m + i)) n (interleave step env m cfg)"
proof (induction m arbitrary: env cfg)
  case 0
  show ?case by simp
next
  case (Suc m)
  obtain p s where cfg: "cfg = (p, s)" by (cases cfg)
  show ?case by (simp add: cfg Suc.IH)
qed

text \<open>The steps of \<^verbatim>\<open>read\<close> without regard to what the others do in between.\<close>

lemma read_five_steps:
  "\<exists>r. fst (interleave (rstep fn c) env 5 (R_guard_right, s)) = R_done r"
  by (simp add: eval_nat_numeral)

text \<open>Left alone, the steps of a call do what the call does.\<close>

lemma read_steps_alone:
  "interleave (rstep fn c) (\<lambda>i s. s) 5 (R_guard_right, s)
     = (case read (\<lambda>p s. (fn (heap s p), s)) c s of (r, s') \<Rightarrow> (R_done r, s'))"
  by (simp add: eval_nat_numeral read_def counter_guard_def counter_guard_exit_def
      inc_def dec_def Let_def)

lemma update_weak_steps_alone:
  "interleave (ustep fn c) (\<lambda>i s. s) 14 (U_load_left, s)
     = (case update_weak (on_object fn) c () s of (r, _, s') \<Rightarrow> (U_done r, s'))"
  by (simp add: eval_nat_numeral update_weak_def check_barrier_def Let_def on_object_def
      counter_guard_def deallocate_guard_exit_def counter_guard_exit_def inc_def dec_def
      split: prod.splits result.splits bool.splits if_splits)


section \<open>The claim about the steps of read\<close>

lemma legacy_read_spins:
  "no_reading s \<noteq> 0 \<Longrightarrow>
     interleave (legacy_read_step fn) (\<lambda>i s. s) n (L_wait, s) = (L_wait, s)"
  by (induction n) simp_all

lemma no_reading_writer_in_sync:
  "fst writer_in_sync = S_counter" "no_reading (snd writer_in_sync) = 1"
  by (simp_all add: writer_in_sync_def legacy_init_def eval_nat_numeral)

text \<open>
  C5, as stated, fails on \<^verbatim>\<open>read\<close> of src/atomic\_data.h: while a writer is inside
  \<^verbatim>\<open>sync\<close>, a reader that takes a thousand steps of its own is still in the loop that
  waits for \<^verbatim>\<open>no_reading\<close>.
\<close>

theorem read_steps_counterexample:
  "fst writer_in_sync = S_counter \<and> no_reading (snd writer_in_sync) = 1
   \<and> fst reader_waiting = L_wait"
proof -
  have "no_reading (snd writer_in_sync) \<noteq> 0"
    by (simp add: no_reading_writer_in_sync)
  then have rw: "reader_waiting = (L_wait, snd writer_in_sync)"
    unfolding reader_waiting_def by (rule legacy_read_spins)
  show ?thesis unfolding rw by (simp add: no_reading_writer_in_sync)
qed

text \<open>
  C5, amended. \<^verbatim>\<open>read\<close> of samples/atomic\_data.h is done after five steps of its own
  (load \<^verbatim>\<open>right\<close>, increment the counter, load \<^verbatim>\<open>data\<close>, apply the functor, decrement the
  counter), whatever the other threads do in between. \<^verbatim>\<open>read\<close> of src/atomic\_data.h is
  done after five steps of its own if its first step reads \<^verbatim>\<open>no_reading\<close> as zero; if that
  step reads anything else, the step changes nothing and the reader is where it was.
\<close>

theorem read_steps_bounded:
  "(\<exists>r. fst (interleave (rstep fn c) env 5 (R_guard_right, s)) = R_done r)
   \<and> (no_reading (envl 0 t) = 0 \<longrightarrow>
        (\<exists>r. fst (interleave (legacy_read_step g) envl 5 (L_wait, t)) = L_done r))
   \<and> (no_reading (envl 0 t) \<noteq> 0 \<longrightarrow>
        interleave (legacy_read_step g) envl 1 (L_wait, t) = (L_wait, envl 0 t))"
  by (simp add: eval_nat_numeral)

theorem read_steps_bounded_witness:
  "no_reading legacy_init = 0
   \<and> (\<exists>r. fst (interleave (legacy_read_step Returns) (\<lambda>i s. s) 5 (L_wait, legacy_init))
            = L_done r)
   \<and> no_reading (snd writer_in_sync) \<noteq> 0
   \<and> interleave (legacy_read_step Returns) (\<lambda>i s. s) 1 (L_wait, snd writer_in_sync)
        = (L_wait, snd writer_in_sync)"
proof -
  have a: "no_reading legacy_init = 0" by (simp add: legacy_init_def)
  have b: "no_reading (snd writer_in_sync) \<noteq> 0" by (simp add: no_reading_writer_in_sync)
  from read_steps_bounded [of "\<lambda>a. Returns a" 0 "\<lambda>i s. s" "snd (cell_u32 2 5)"
      "\<lambda>i s. s" legacy_init Returns] a
  have c: "\<exists>r. fst (interleave (legacy_read_step Returns) (\<lambda>i s. s) 5 (L_wait, legacy_init))
            = L_done r" by blast
  from read_steps_bounded [of "\<lambda>a. Returns a" 0 "\<lambda>i s. s" "snd (cell_u32 2 5)"
      "\<lambda>i s. s" "snd writer_in_sync" Returns] b
  have d: "interleave (legacy_read_step Returns) (\<lambda>i s. s) 1 (L_wait, snd writer_in_sync)
        = (L_wait, snd writer_in_sync)" by blast
  from a b c d show ?thesis by blast
qed

section \<open>The indices of the queue under threads\<close>

lemma holders_update:
  assumes "t < length ths"
  shows "holders (ths[t := st]) + length (filter holding (ths ! t))
       = holders ths + length (filter holding st)"
  using assms
proof (induction ths arbitrary: t)
  case Nil
  then show ?case by simp
next
  case (Cons a ths)
  show ?case
  proof (cases t)
    case 0
    then show ?thesis by (simp add: holders_def)
  next
    case (Suc u)
    with Cons.prems have "u < length ths" by simp
    from Cons.IH [OF this] show ?thesis by (simp add: holders_def Suc)
  qed
qed

lemma frames_update:
  assumes "f \<in> set (concat (ths[t := st]))"
  shows "f \<in> set st \<or> f \<in> set (concat ths)"
proof -
  from assms obtain x where "x \<in> set (ths[t := st])" "f \<in> set x" by auto
  moreover have "set (ths[t := st]) \<subseteq> insert st (set ths)" by (rule set_update_subset_insert)
  ultimately show ?thesis by auto
qed

lemma frames_nth: "t < length ths \<Longrightarrow> f \<in> set (ths ! t) \<Longrightarrow> f \<in> set (concat ths)"
  by (auto intro: nth_mem)

text \<open>What one step of a call does to the indices.\<close>

lemma not_holding_begin: "\<not> holding (begin_call call)"
  by (cases call) auto

lemma not_holding_finished: "finished f \<Longrightarrow> \<not> holding f"
  by (cases f rule: finished.cases) auto

lemma tstep_indices:
  assumes "tstep f s = (f1, s1)"
  shows "queue_size s1 = queue_size s"
    and "holding f \<Longrightarrow> holding f1 \<Longrightarrow> left s1 = left s \<and> right s1 = right s"
    and "holding f \<Longrightarrow> \<not> holding f1 \<Longrightarrow> left s1 = left s \<and> right s1 = right s + 1"
    and "\<not> holding f \<Longrightarrow> holding f1 \<Longrightarrow>
           right s1 = right s \<and> left s1 = left s + 1
           \<and> (\<exists>fn c r. f = Updating fn c (U_cas_left (left s) r))"
    and "\<not> holding f \<Longrightarrow> \<not> holding f1 \<Longrightarrow> left s1 = left s \<and> right s1 = right s"
proof -
  have "queue_size s1 = queue_size s
    \<and> (holding f \<longrightarrow> holding f1 \<longrightarrow> left s1 = left s \<and> right s1 = right s)
    \<and> (holding f \<longrightarrow> \<not> holding f1 \<longrightarrow> left s1 = left s \<and> right s1 = right s + 1)
    \<and> (\<not> holding f \<longrightarrow> holding f1 \<longrightarrow>
           right s1 = right s \<and> left s1 = left s + 1
           \<and> (\<exists>fn c r. f = Updating fn c (U_cas_left (left s) r)))
    \<and> (\<not> holding f \<longrightarrow> \<not> holding f1 \<longrightarrow> left s1 = left s \<and> right s1 = right s)"
  proof (cases f)
    case Idle
    with assms show ?thesis by auto
  next
    case (Reading fn c q)
    with assms show ?thesis
      by (cases q) (auto simp: inc_def dec_def)
  next
    case (Updating fn c q)
    with assms show ?thesis
      by (cases q)
         (auto simp: Let_def inc_def dec_def left_compare_exchange_weak_def
            data_compare_exchange_weak_def cas_permitted_eq
            split: if_splits prod.splits result.splits)
  qed
  then show "queue_size s1 = queue_size s"
    and "holding f \<Longrightarrow> holding f1 \<Longrightarrow> left s1 = left s \<and> right s1 = right s"
    and "holding f \<Longrightarrow> \<not> holding f1 \<Longrightarrow> left s1 = left s \<and> right s1 = right s + 1"
    and "\<not> holding f \<Longrightarrow> holding f1 \<Longrightarrow>
           right s1 = right s \<and> left s1 = left s + 1
           \<and> (\<exists>fn c r. f = Updating fn c (U_cas_left (left s) r))"
    and "\<not> holding f \<Longrightarrow> \<not> holding f1 \<Longrightarrow> left s1 = left s \<and> right s1 = right s"
    by blast+
qed

lemma holders_step:
  assumes "t < length ths" "ths ! t = f # fs"
  shows "holders (ths[t := f1 # fs]) + (if holding f then 1 else 0)
       = holders ths + (if holding f1 then 1 else 0)"
  using holders_update [OF assms(1), of "f1 # fs"] assms(2) by (auto split: if_splits)

lemma holders_push:
  assumes "t < length ths" "\<not> holding f"
  shows "holders (ths[t := f # ths ! t]) = holders ths"
  using holders_update [OF assms(1), of "f # ths ! t"] assms(2) by simp

lemma holders_pop:
  assumes "t < length ths" "ths ! t = f # fs" "\<not> holding f"
  shows "holders (ths[t := fs]) = holders ths"
  using holders_update [OF assms(1), of fs] assms(2,3) by simp

lemma holders_le: "holders ths \<le> length (concat ths)"
  by (simp add: holders_def)

lemma holders_replicate [simp]: "holders (replicate W []) = 0"
  by (induction W) (simp_all add: holders_def)

text \<open>The equation between the indices and the calls that hold a slot, in every run.\<close>

lemma indices_inv_exec:
  assumes "indices_inv N0 cfg"
  shows "indices_inv N0 (exec e cfg)"
proof -
  obtain ths s where cfg: "cfg = (ths, s)" by (cases cfg)
  from assms have q: "queue_size s = N0"
    and i: "right s - left s + of_nat (holders ths) = N0"
    by (simp_all add: indices_inv_def cfg)
  show ?thesis
  proof (cases e)
    case (Begin t call)
    show ?thesis
      using q i holders_push [OF _ not_holding_begin, of t ths call]
      by (simp add: cfg Begin indices_inv_def)
  next
    case (Return t)
    show ?thesis
    proof (cases "t < length ths")
      case False
      with assms show ?thesis by (simp add: cfg Return)
    next
      case True
      show ?thesis
      proof (cases "ths ! t")
        case Nil
        with assms True show ?thesis by (simp add: cfg Return)
      next
        case (Cons f fs)
        show ?thesis
          using q i holders_pop [OF True Cons not_holding_finished]
          by (simp add: cfg Return True Cons indices_inv_def)
      qed
    qed
  next
    case (Step t)
    show ?thesis
    proof (cases "t < length ths")
      case False
      with assms show ?thesis by (simp add: cfg Step)
    next
      case True
      show ?thesis
      proof (cases "ths ! t")
        case Nil
        with assms True show ?thesis by (simp add: cfg Step)
      next
        case (Cons f fs)
        obtain f1 s1 where ts: "tstep f s = (f1, s1)" by (cases "tstep f s")
        note h = holders_step [OF True Cons, of f1]
        note k = tstep_indices [OF ts]
        have e: "exec e cfg = (ths[t := f1 # fs], s1)"
          by (simp add: cfg Step True Cons ts)
        have "right s1 - left s1 + of_nat (holders (ths[t := f1 # fs])) = N0"
        proof (cases "holding f")
          case hf: True
          show ?thesis
          proof (cases "holding f1")
            case True
            with hf h k(2) i show ?thesis by simp
          next
            case False
            with hf h have "holders ths = Suc (holders (ths[t := f1 # fs]))" by simp
            with k(3) [OF hf False] i show ?thesis by (simp add: algebra_simps)
          qed
        next
          case nf: False
          show ?thesis
          proof (cases "holding f1")
            case True
            with nf h have "holders (ths[t := f1 # fs]) = Suc (holders ths)" by simp
            with k(4) [OF nf True] i show ?thesis by (simp add: algebra_simps)
          next
            case False
            with nf h k(5) i show ?thesis by simp
          qed
        qed
        with k(1) q show ?thesis by (simp add: e indices_inv_def)
      qed
    qed
  qed
qed

lemma indices_inv_run: "indices_inv N0 cfg \<Longrightarrow> indices_inv N0 (run es cfg)"
  by (induction es arbitrary: cfg) (simp_all add: indices_inv_exec)

lemma valid_queue_size_le: "valid_queue_size n \<Longrightarrow> 0 < unat n \<and> unat n \<le> 2 ^ 30"
proof -
  assume "valid_queue_size n"
  then obtain k where k: "k < 31" "unat n = 2 ^ k" by (rule valid_queue_sizeD)
  have "(2::nat) ^ k \<le> 2 ^ 30" using k(1) by (intro power_increasing) simp_all
  with k show ?thesis by simp
qed

text \<open>
  In a run of fewer than \<open>2 ^ 31\<close> events the indices do not wrap, and the compare-and-swap
  on \<^verbatim>\<open>left\<close> takes a slot only if the queue has one.
\<close>

lemma snapshot_ok_mono:
  assumes "snapshot_ok s f" "unat (left s) \<le> unat (left s1)" "unat (right s) \<le> unat (right s1)"
  shows "snapshot_ok s1 f"
  using assms by (cases "(s, f)" rule: snapshot_ok.cases) auto

lemma snapshot_ok_tstep:
  assumes "tstep f s = (f1, s1)" and "snapshot_ok s f" and "unat (left s) \<le> unat (right s)"
    and "left s1 = left s \<or> holding f1" and "right s1 = right s \<or> \<not> holding f1"
  shows "snapshot_ok s1 f1"
proof (cases f)
  case Idle
  with assms show ?thesis by auto
next
  case (Reading fn c q)
  with assms(1) show ?thesis by (cases q) auto
next
  case (Updating fn c q)
  show ?thesis
  proof (cases q)
    case (U_load_right l)
    have "unat l < unat (right s)" if "l \<noteq> right s"
      using that assms(2,3) by (simp add: Updating U_load_right word_unat_eq_iff)
    with assms show ?thesis
      by (auto simp: Updating U_load_right Let_def split: if_splits)
  qed (use assms in \<open>auto simp: Updating Let_def inc_def dec_def left_compare_exchange_weak_def
            data_compare_exchange_weak_def cas_permitted_eq
            split: if_splits prod.splits result.splits\<close>)
qed

lemma list_all_frames_update:
  assumes "list_all P (concat ths)" "list_all P st"
  shows "list_all P (concat (ths[t := st]))"
proof -
  have "P f" if "f \<in> set (concat (ths[t := st]))" for f
    using frames_update [OF that] assms unfolding list_all_iff by blast
  then show ?thesis unfolding list_all_iff by blast
qed

lemma list_all_frames_nth:
  assumes "list_all P (concat ths)" "t < length ths"
  shows "list_all P (ths ! t)"
proof -
  have "P f" if "f \<in> set (ths ! t)" for f
    using frames_nth [OF assms(2) that] assms(1) unfolding list_all_iff by blast
  then show ?thesis unfolding list_all_iff by blast
qed

lemma unat_Suc_word:
  fixes x :: uint
  assumes "unat x < 2 ^ 32 - 1"
  shows "unat (x + 1) = Suc (unat x)"
  using assms by (simp add: unat_word_ariths)

lemma short_run_inv_exec:
  assumes i: "short_run_inv n N0 cfg" and n: "n < 2 ^ 31" and v: "valid_queue_size N0"
  shows "short_run_inv (Suc n) N0 (exec e cfg)"
proof -
  obtain ths s where cfg: "cfg = (ths, s)" by (cases cfg)
  from i have a: "unat (left s) \<le> n" "unat (left s) \<le> unat (right s)"
    "unat (right s) \<le> n + unat N0"
    "unat (right s) + holders ths = unat (left s) + unat N0"
    "list_all (snapshot_ok s) (concat ths)"
    by (simp_all add: short_run_inv_def cfg)
  note b = valid_queue_size_le [OF v]
  have same: "short_run_inv (Suc n) N0 (ths, s)"
    using a by (simp add: short_run_inv_def)
  show ?thesis
  proof (cases e)
    case (Begin t call)
    show ?thesis
    proof (cases "t < length ths \<and> may_begin (ths ! t)")
      case False
      with same show ?thesis by (auto simp: cfg Begin)
    next
      case True
      have "snapshot_ok s (begin_call call)" by (cases call) auto
      then have "list_all (snapshot_ok s) (concat (ths[t := begin_call call # ths ! t]))"
        using list_all_frames_nth [OF a(5), of t] True
        by (intro list_all_frames_update [OF a(5)]) simp
      with a True holders_push [OF _ not_holding_begin, of t ths call] show ?thesis
        by (simp add: cfg Begin short_run_inv_def)
    qed
  next
    case (Return t)
    show ?thesis
    proof (cases "t < length ths")
      case False
      with same show ?thesis by (simp add: cfg Return)
    next
      case True
      show ?thesis
      proof (cases "ths ! t")
        case Nil
        with same True show ?thesis by (simp add: cfg Return)
      next
        case (Cons f fs)
        have "list_all (snapshot_ok s) (concat (ths[t := fs]))"
          using list_all_frames_nth [OF a(5) True]
          by (intro list_all_frames_update [OF a(5)]) (simp add: Cons)
        with a same holders_pop [OF True Cons not_holding_finished] show ?thesis
          by (simp add: cfg Return True Cons short_run_inv_def)
      qed
    qed
  next
    case (Step t)
    show ?thesis
    proof (cases "t < length ths")
      case False
      with same show ?thesis by (simp add: cfg Step)
    next
      case True
      show ?thesis
      proof (cases "ths ! t")
        case Nil
        with same True show ?thesis by (simp add: cfg Step)
      next
        case (Cons f fs)
        obtain f1 s1 where ts: "tstep f s = (f1, s1)" by (cases "tstep f s")
        note h = holders_step [OF True Cons, of f1]
        note k = tstep_indices [OF ts]
        have e: "exec e cfg = (ths[t := f1 # fs], s1)"
          by (simp add: cfg Step True Cons ts)
        have fr: "list_all (snapshot_ok s) (f # fs)"
          using list_all_frames_nth [OF a(5) True] by (simp add: Cons)
        then have sf: "snapshot_ok s f" by simp
        have ix: "unat (left s1) \<le> Suc n \<and> unat (left s1) \<le> unat (right s1)
            \<and> unat (right s1) \<le> Suc n + unat N0
            \<and> unat (right s1) + holders (ths[t := f1 # fs]) = unat (left s1) + unat N0
            \<and> unat (left s) \<le> unat (left s1) \<and> unat (right s) \<le> unat (right s1)
            \<and> (left s1 = left s \<or> holding f1) \<and> (right s1 = right s \<or> \<not> holding f1)"
        proof (cases "holding f")
          case hf: True
          show ?thesis
          proof (cases "holding f1")
            case True
            with hf h k(2) a show ?thesis by simp
          next
            case False
            have "unat (right s) < 2 ^ 32 - 1" using a(3) b n by simp
            from unat_Suc_word [OF this] hf False h k(3) a show ?thesis by simp
          qed
        next
          case nf: False
          show ?thesis
          proof (cases "holding f1")
            case True
            from k(4) [OF nf True] obtain fn c r where
              l: "right s1 = right s" "left s1 = left s + 1"
              and f: "f = Updating fn c (U_cas_left (left s) r)"
              by blast
            from sf have lt: "unat (left s) < unat (right s)" by (simp add: f)
            have "unat (left s) < 2 ^ 32 - 1" using a(1) n by simp
            from unat_Suc_word [OF this] lt l nf True h a show ?thesis by simp
          next
            case False
            with nf h k(5) a show ?thesis by simp
          qed
        qed
        have s1: "snapshot_ok s1 f1"
          using snapshot_ok_tstep [OF ts sf a(2)] ix by blast
        have "snapshot_ok s1 g" if "g \<in> set (concat (ths[t := f1 # fs]))" for g
        proof -
          from frames_update [OF that] consider "g = f1" | "g \<in> set fs" | "g \<in> set (concat ths)"
            by auto
          then show ?thesis
          proof cases
            case 1
            with s1 show ?thesis by simp
          next
            case 2
            with fr have "snapshot_ok s g" by (simp add: list_all_iff)
            from snapshot_ok_mono [OF this] ix show ?thesis by simp
          next
            case 3
            with a(5) have "snapshot_ok s g" unfolding list_all_iff by blast
            from snapshot_ok_mono [OF this] ix show ?thesis by simp
          qed
        qed
        then have "list_all (snapshot_ok s1) (concat (ths[t := f1 # fs]))"
          unfolding list_all_iff by blast
        with ix show ?thesis by (simp add: e short_run_inv_def)
      qed
    qed
  qed
qed

lemma short_run_inv_run:
  "short_run_inv n N0 cfg \<Longrightarrow> n + length es < 2 ^ 31 \<Longrightarrow> valid_queue_size N0 \<Longrightarrow>
     short_run_inv (n + length es) N0 (run es cfg)"
proof (induction es arbitrary: n cfg)
  case Nil
  then show ?case by simp
next
  case (Cons e es)
  from Cons.prems(2) have n: "n < 2 ^ 31" "Suc n + length es < 2 ^ 31" by simp_all
  from Cons.IH [OF short_run_inv_exec [OF Cons.prems(1) n(1) Cons.prems(3)] n(2) Cons.prems(3)]
  show ?case by simp
qed

lemma concat_replicate_Nil [simp]: "concat (replicate W []) = []"
  by (induction W) simp_all


section \<open>The claim about the indices of the queue\<close>

text \<open>
  C6, as stated, fails: with \<^verbatim>\<open>N0 = 1\<close>, when \<^verbatim>\<open>update_weak\<close> has taken the slot, \<^verbatim>\<open>left\<close>
  and \<^verbatim>\<open>right\<close> are equal.
\<close>

theorem queue_indices_counterexample:
  "left (snd slot_taken) = 1 \<and> right (snd slot_taken) = 1
   \<and> \<not> 1 \<le> unat (right (snd slot_taken) - left (snd slot_taken))"
  by (simp add: slot_taken_def eval_nat_numeral cell_u32_def init_static_def static_zero_def
      new_object_def atomic_data_def Let_def is_used_def counter_index_def array_size_def
      left_compare_exchange_weak_def cas_permitted_def increment_def)

text \<open>
  C6, amended. Start with \<^verbatim>\<open>left = 0\<close> and \<^verbatim>\<open>right = queue_size\<close>, a power of two up to
  \<open>2 ^ 30\<close>, and let any number of threads run calls of \<^verbatim>\<open>read\<close> and \<^verbatim>\<open>update_weak\<close>, step
  by step and in any order, the functors calling \<^verbatim>\<open>read\<close> and \<^verbatim>\<open>update_weak\<close> themselves or
  not. Let \<open>h\<close> be the number of calls of \<^verbatim>\<open>update_weak\<close> that are between their increment
  of \<^verbatim>\<open>left\<close> and their increment of \<^verbatim>\<open>right\<close>. In every state \<^verbatim>\<open>right - left + h\<close> is
  \<^verbatim>\<open>queue_size\<close> in unsigned 32-bit arithmetic, and \<open>h\<close> is at most the number of calls in
  progress. Whenever \<open>h\<close> is at most \<^verbatim>\<open>queue_size\<close>, \<^verbatim>\<open>right - left\<close> is \<^verbatim>\<open>queue_size - h\<close>: it
  lies between 0 and \<^verbatim>\<open>queue_size\<close>, hence is at most \<^verbatim>\<open>array_size\<close>, it is
  \<^verbatim>\<open>queue_size\<close> when no call holds a slot and 0 when \<^verbatim>\<open>queue_size\<close> calls do. In a run of
  fewer than \<open>2 ^ 31\<close> events \<open>h\<close> is at most \<^verbatim>\<open>queue_size\<close>.
\<close>

theorem queue_indices:
  assumes "valid_queue_size (queue_size s0)" and "left s0 = 0" and "right s0 = queue_size s0"
    and "run es (replicate W [], s0) = (ths, s)"
  shows "queue_size s = queue_size s0
       \<and> right s - left s + of_nat (holders ths) = queue_size s
       \<and> holders ths \<le> length (concat ths)
       \<and> (holders ths \<le> unat (queue_size s) \<longrightarrow>
            unat (right s - left s) = unat (queue_size s) - holders ths
            \<and> unat (right s - left s) \<le> unat (array_size s))
       \<and> (length es < 2 ^ 31 \<longrightarrow> holders ths \<le> unat (queue_size s))"
proof -
  let ?N = "queue_size s0"
  have "indices_inv ?N (replicate W [], s0)"
    using assms(2,3) by (simp add: indices_inv_def)
  from indices_inv_run [OF this, of es] have q: "queue_size s = ?N"
    and i: "right s - left s + of_nat (holders ths) = ?N"
    by (simp_all add: assms(4) indices_inv_def)
  note b = valid_queue_size_le [OF assms(1)]
  from assms(1) obtain k where k: "k < 31" "?N = 2 ^ k" "unat ?N = 2 ^ k"
    by (rule valid_queue_sizeD)
  have "unat (array_size s) = 2 ^ Suc k"
    using k(1) unat_pow2 [of "Suc k"] q by (simp add: array_size_pow2 [of s k] k(2))
  then have ar: "unat ?N \<le> unat (array_size s)" using k(3) by simp
  have d: "unat (right s - left s) = unat ?N - holders ths" if h: "holders ths \<le> unat ?N"
  proof -
    have "holders ths < 2 ^ 32" using h b by simp
    then have u: "unat (of_nat (holders ths) :: uint) = holders ths"
      by (simp add: unat_of_nat)
    then have le: "(of_nat (holders ths) :: uint) \<le> ?N" using h by (simp add: word_le_nat_alt)
    have "right s - left s = ?N - of_nat (holders ths)" using i by (simp add: algebra_simps)
    then show ?thesis using unat_sub [OF le] u by simp
  qed
  have c: "holders ths \<le> unat ?N" if l: "length es < 2 ^ 31"
  proof -
    have "short_run_inv 0 ?N (replicate W [], s0)"
      using assms(2,3) by (simp add: short_run_inv_def)
    from short_run_inv_run [OF this _ assms(1), of es] l
    have "short_run_inv (length es) ?N (ths, s)" by (simp add: assms(4))
    then show ?thesis by (simp add: short_run_inv_def)
  qed
  from q i holders_le [of ths] d c ar show ?thesis by auto
qed

lemma two_holders_eval:
  "holders (fst two_holders) = 2 \<and> left (snd two_holders) = 2 \<and> right (snd two_holders) = 2
   \<and> queue_size (snd two_holders) = 2 \<and> length (concat (fst two_holders)) = 3"
  by code_simp

theorem queue_indices_witness:
  "valid_queue_size (queue_size (snd (cell_u32 2 5))) \<and> left (snd (cell_u32 2 5)) = 0
   \<and> right (snd (cell_u32 2 5)) = queue_size (snd (cell_u32 2 5))
   \<and> length nested_events < 2 ^ 31
   \<and> holders (fst two_holders) = 2
   \<and> unat (queue_size (snd two_holders)) = 2
   \<and> unat (right (snd two_holders) - left (snd two_holders)) = 0"
proof -
  let ?s0 = "snd (cell_u32 2 5)"
  have a: "valid_queue_size (queue_size ?s0)" "left ?s0 = 0" "right ?s0 = queue_size ?s0"
    by code_simp+
  have r: "run nested_events (replicate 2 [], ?s0) = (fst two_holders, snd two_holders)"
    by (simp add: two_holders_def)
  have l: "length nested_events < 2 ^ 31" by (simp add: nested_events_def)
  from queue_indices [OF a r] l two_holders_eval a show ?thesis by simp
qed

end
